theory Spec2Isabelle
  imports Complex_Main
begin

section \<open>Python values and control flow\<close>

text \<open>
  The exceptions that the modelled code can raise. \<open>AssertionError\<close> comes from the
  \<open>assert\<close> statements, \<open>ValueError\<close> from \<open>list.index\<close> and \<open>chr\<close>,
  \<open>IndexError\<close> from list subscripts and \<open>ZeroDivisionError\<close> from \<open>/\<close>.
\<close>

datatype error = AssertionError | ValueError | IndexError | ZeroDivisionError

text \<open>
  A method of \<open>Editor\<close> is a function of the state it mutates. It returns the raised
  exception or the returned value, and the state as it is left behind: an exception
  does not roll back the writes made before it.
\<close>

type_synonym ('s, 'a) prog = "'s \<Rightarrow> (error + 'a) \<times> 's"

definition return :: "'a \<Rightarrow> ('s, 'a) prog" where
  "return x = (\<lambda>s. (Inr x, s))"

definition raise :: "error \<Rightarrow> ('s, 'a) prog" where
  "raise e = (\<lambda>s. (Inl e, s))"

definition bind :: "('s, 'a) prog \<Rightarrow> ('a \<Rightarrow> ('s, 'b) prog) \<Rightarrow> ('s, 'b) prog" where
  "bind m f = (\<lambda>s. case m s of (Inl e, s') \<Rightarrow> (Inl e, s') | (Inr x, s') \<Rightarrow> f x s')"

text \<open>\<open>for x in xs: body(x)\<close>\<close>

fun for_each :: "'a list \<Rightarrow> ('a \<Rightarrow> ('s, unit) prog) \<Rightarrow> ('s, unit) prog" where
  "for_each [] body = return ()"
| "for_each (x # xs) body = bind (body x) (\<lambda>_. for_each xs body)"

text \<open>\<open>try: m  except AssertionError: pass\<close>. Any other exception goes through.\<close>

definition try_except_AssertionError :: "('s, unit) prog \<Rightarrow> ('s, unit) prog" where
  "try_except_AssertionError m =
     (\<lambda>s. case m s of (Inl AssertionError, s') \<Rightarrow> (Inr (), s') | r \<Rightarrow> r)"

text \<open>\<open>assert b\<close>\<close>

definition assert :: "bool \<Rightarrow> ('s, unit) prog" where
  "assert b = (if b then return () else raise AssertionError)"

text \<open>A call of a function that has no access to the state.\<close>

definition lift :: "error + 'a \<Rightarrow> ('s, 'a) prog" where
  "lift r = (\<lambda>s. (r, s))"

text \<open>
  A Python \<open>str\<close> is a sequence of Unicode code points; \<open>len\<close> counts code points.
  \<open>ord\<close> gives the code point, \<open>chr\<close> is defined below \<open>0x110000\<close>.
\<close>

type_synonym pystr = "nat list"

definition py_ord :: "nat \<Rightarrow> int" where
  "py_ord c = int c"

definition py_chr :: "int \<Rightarrow> error + nat" where
  "py_chr i = (if 0 \<le> i \<and> i < 1114112 then Inr (nat i) else Inl ValueError)"

text \<open>\<open>str(i)\<close> of an integer: its decimal digits, after a minus sign if negative.\<close>

fun nat_digits :: "nat \<Rightarrow> pystr" where
  "nat_digits n = (if n < 10 then [48 + n] else nat_digits (n div 10) @ [48 + n mod 10])"

declare nat_digits.simps [simp del]

definition py_str :: "int \<Rightarrow> pystr" where
  "py_str i = (if i < 0 then 45 # nat_digits (nat (- i)) else nat_digits (nat i))"

text \<open>
  \<open>int(s)\<close> of a string, base 10: surrounding whitespace is dropped, then an optional
  sign, then decimal digits, where a single underscore may stand between two digits.
  \<open>None\<close> is the \<open>ValueError\<close>. The whitespace that \<open>int\<close> drops is tab to carriage
  return, the space, and the Unicode spaces from U+0085 on; the separators U+001C to
  U+001F are not dropped. The strings this program parses are made of code points
  below 1000, where the only decimal digits are \<open>0\<close> to \<open>9\<close>.
\<close>

definition is_space :: "nat \<Rightarrow> bool" where
  "is_space c = ((9 \<le> c \<and> c \<le> 13) \<or> c = 32 \<or> c = 133 \<or> c = 160 \<or> c = 5760
     \<or> (8192 \<le> c \<and> c \<le> 8202) \<or> c = 8232 \<or> c = 8233 \<or> c = 8239 \<or> c = 8287 \<or> c = 12288)"

definition is_digit :: "nat \<Rightarrow> bool" where
  "is_digit c = (48 \<le> c \<and> c \<le> 57)"

fun digits_val :: "nat list \<Rightarrow> int \<Rightarrow> int option" where
  "digits_val [] acc = Some acc"
| "digits_val [c] acc = (if is_digit c then Some (10 * acc + (int c - 48)) else None)"
| "digits_val (c # d # ds) acc =
     (if is_digit c then digits_val (d # ds) (10 * acc + (int c - 48))
      else if c = 95 \<and> is_digit d then digits_val ds (10 * acc + (int d - 48))
      else None)"

definition unsigned_val :: "nat list \<Rightarrow> int option" where
  "unsigned_val s = (case s of [] \<Rightarrow> None
     | c # cs \<Rightarrow> if is_digit c then digits_val cs (int c - 48) else None)"

definition strip :: "pystr \<Rightarrow> pystr" where
  "strip s = rev (dropWhile is_space (rev (dropWhile is_space s)))"

definition py_int :: "pystr \<Rightarrow> int option" where
  "py_int s = (case strip s of [] \<Rightarrow> None
     | c # cs \<Rightarrow> if c = 43 then unsigned_val cs
                else if c = 45 then map_option uminus (unsigned_val cs)
                else unsigned_val (c # cs))"

text \<open>\<open>xs.index(v)\<close>: the first position of \<open>v\<close>, or \<open>ValueError\<close>.\<close>

fun index_from :: "nat \<Rightarrow> int list \<Rightarrow> int \<Rightarrow> error + nat" where
  "index_from n [] v = Inl ValueError"
| "index_from n (x # xs) v = (if x = v then Inr n else index_from (Suc n) xs v)"

definition py_index :: "int list \<Rightarrow> int \<Rightarrow> error + nat" where
  "py_index xs v = index_from 0 xs v"

text \<open>\<open>xs[i]\<close> for \<open>i \<ge> 0\<close>.\<close>

definition py_nth :: "'a list \<Rightarrow> nat \<Rightarrow> error + 'a" where
  "py_nth xs i = (if i < length xs then Inr (xs ! i) else Inl IndexError)"

text \<open>\<open>xs[start:stop]\<close>: a negative bound counts from the end, and bounds are clipped.\<close>

definition slice_bound :: "nat \<Rightarrow> int \<Rightarrow> nat" where
  "slice_bound n i = (if i < 0 then nat (max 0 (int n + i)) else min (nat i) n)"

definition py_slice :: "'a list \<Rightarrow> int \<Rightarrow> int \<Rightarrow> 'a list" where
  "py_slice xs start stop =
     (let a = slice_bound (length xs) start; b = slice_bound (length xs) stop
      in take (b - a) (drop a xs))"

text \<open>
  \<open>int(x)\<close> of a float truncates towards zero. The floats of \<open>jail\<close> and \<open>_avgRGB\<close>
  are quotients of integers, modelled by the exact quotient. In \<open>_avgRGB\<close> the
  truncated quotient of a channel sum by the number of pixels is the same in binary64
  as long as a block has fewer than \<open>2^45\<close> pixels.
\<close>

definition py_trunc :: "rat \<Rightarrow> int" where
  "py_trunc q = (if 0 \<le> q then \<lfloor>q\<rfloor> else \<lceil>q\<rceil>)"

text \<open>\<open>a / b\<close> on integers.\<close>

definition py_truediv :: "int \<Rightarrow> int \<Rightarrow> error + rat" where
  "py_truediv a b = (if b = 0 then Inl ZeroDivisionError else Inr (rat_of_int a / rat_of_int b))"

section \<open>The pixel grid\<close>

text \<open>A pixel is the tuple \<open>(red, green, blue)\<close> of Python integers.\<close>

type_synonym pixel = "int \<times> int \<times> int"

text \<open>Modelled from the spec: the pixel grid, its pixels in row-major order.\<close>

record image =
  pixels :: "pixel list"
  width :: nat
  height :: nat

text \<open>
  The class \<open>a6image.Image\<close>, which \<open>a6editor.py\<close> imports, is not among the sources,
  and neither is \<open>a6history.ImageHistory\<close>, which gives \<open>getCurrent\<close>. Their methods
  are modelled from the pixel grid of the spec: a row-major list of RGB triples with
  \<open>len(pixels) == width * height\<close>, addressed by \<open>(row, col)\<close> or by the flat index
  \<open>row * width + col\<close>.
\<close>

text \<open>Modelled from the spec: the invariant \<open>len(pixels) == width * height\<close> of the grid.\<close>

definition wf_image :: "image \<Rightarrow> bool" where
  "wf_image img = (length (pixels img) = width img * height img)"

text \<open>Modelled from the spec: \<open>length()\<close>, the number of pixels.\<close>

definition getLength :: "image \<Rightarrow> nat" where
  "getLength img = length (pixels img)"

text \<open>Modelled from the spec: \<open>width()\<close>.\<close>

definition getWidth :: "image \<Rightarrow> nat" where
  "getWidth img = width img"

text \<open>Modelled from the spec: \<open>height()\<close>.\<close>

definition getHeight :: "image \<Rightarrow> nat" where
  "getHeight img = height img"

text \<open>Modelled from the spec: \<open>snapshot()\<close>, a copy that later writes do not reach.\<close>

definition copy :: "image \<Rightarrow> image" where
  "copy img = img"

text \<open>
  Modelled from the spec: the resize of the geometric transforms. \<open>setWidth\<close> keeps the
  pixel list, and the height becomes what the invariant asks for; a width that does
  not divide the number of pixels is a precondition violation.
\<close>

definition setWidth :: "image \<Rightarrow> int \<Rightarrow> error + image" where
  "setWidth img v =
     (if 0 < v \<and> int (length (pixels img)) mod v = 0
      then Inr (img\<lparr>width := nat v, height := length (pixels img) div nat v\<rparr>)
      else Inl AssertionError)"

text \<open>Modelled from the spec: the positions \<open>(row, col)\<close> of the grid.\<close>

definition in_grid :: "image \<Rightarrow> int \<Rightarrow> int \<Rightarrow> bool" where
  "in_grid img row col = (0 \<le> row \<and> row < int (height img) \<and> 0 \<le> col \<and> col < int (width img))"

text \<open>Modelled from the spec: the flat index \<open>row * width + col\<close>.\<close>

definition flat_index :: "image \<Rightarrow> int \<Rightarrow> int \<Rightarrow> nat" where
  "flat_index img row col = nat (row * int (width img) + col)"

text \<open>
  Modelled from the spec: \<open>getPixel(row, col)\<close>. A position outside the grid fails an
  assertion: the \<open>except AssertionError\<close> clauses of \<open>_avgRGB\<close> catch it.
\<close>

definition getPixel :: "image \<Rightarrow> int \<Rightarrow> int \<Rightarrow> error + pixel" where
  "getPixel img row col =
     (if in_grid img row col then py_nth (pixels img) (flat_index img row col)
      else Inl AssertionError)"

text \<open>Modelled from the spec: \<open>setPixel(row, col, rgb)\<close>, with the same assertion.\<close>

definition setPixel :: "image \<Rightarrow> int \<Rightarrow> int \<Rightarrow> pixel \<Rightarrow> error + image" where
  "setPixel img row col p =
     (if in_grid img row col
      then (if flat_index img row col < length (pixels img)
            then Inr (img\<lparr>pixels := (pixels img)[flat_index img row col := p]\<rparr>)
            else Inl IndexError)
      else Inl AssertionError)"

text \<open>
  Modelled from the spec: \<open>getFlatPixel(index)\<close>, for \<open>0 <= index < length()\<close> as the
  docstring of \<open>_decode_pixel\<close> requires.
\<close>

definition getFlatPixel :: "image \<Rightarrow> int \<Rightarrow> error + pixel" where
  "getFlatPixel img pos =
     (if 0 \<le> pos \<and> pos < int (length (pixels img)) then Inr (pixels img ! nat pos)
      else Inl AssertionError)"

text \<open>Modelled from the spec: \<open>setFlatPixel(index, rgb)\<close>.\<close>

definition setFlatPixel :: "image \<Rightarrow> int \<Rightarrow> pixel \<Rightarrow> error + image" where
  "setFlatPixel img pos p =
     (if 0 \<le> pos \<and> pos < int (length (pixels img))
      then Inr (img\<lparr>pixels := (pixels img)[nat pos := p]\<rparr>)
      else Inl AssertionError)"

text \<open>
  Modelled from the spec: \<open>getCurrentGrid()\<close>. The editor's state is its current image,
  the object that \<open>self.getCurrent()\<close> returns and that the methods mutate.
\<close>

definition getCurrent :: "(image, image) prog" where
  "getCurrent = (\<lambda>s. (Inr s, s))"

text \<open>A call of a writing method on the current image.\<close>

definition writing :: "(image \<Rightarrow> error + image) \<Rightarrow> (image, unit) prog" where
  "writing f = (\<lambda>s. case f s of Inl e \<Rightarrow> (Inl e, s) | Inr s' \<Rightarrow> (Inr (), s'))"

section \<open>The steganographic codec\<close>

subsection \<open>Encoding\<close>

text \<open>\<open>_text_to_ASCII\<close>: the code of every character, in order.\<close>

definition text_to_ASCII :: "pystr \<Rightarrow> int list" where
  "text_to_ASCII text = map py_ord text"

text \<open>
  \<open>_is_ASCII\<close> returns from inside its loop at the first element, whatever the
  branch, and falls off the end of the loop on an empty list: the result is Python's
  \<open>None\<close> for \<open>[]\<close> and otherwise tells whether the first element is in \<open>0..255\<close>.
\<close>

definition is_ASCII :: "int list \<Rightarrow> bool option" where
  "is_ASCII thelist = (case thelist of [] \<Rightarrow> None
     | x # _ \<Rightarrow> if \<not> (0 \<le> x \<and> x \<le> 255) then Some False else Some True)"

text \<open>
  The statement repeated for red, green and blue in \<open>_encode_pixel\<close>:
  \<open>red=(red//10)*10+(a)\<close>, then \<open>if red>255: red=red-10\<close>.
\<close>

definition encode_channel :: "int \<Rightarrow> int \<Rightarrow> int" where
  "encode_channel channel digit =
     (let v = (channel div 10) * 10 + digit in if v > 255 then v - 10 else v)"

definition encode_pixel :: "int \<Rightarrow> int \<Rightarrow> (image, unit) prog" where
  "encode_pixel pos ASCII =
     bind (assert (0 \<le> ASCII)) (\<lambda>_.
     bind (assert (ASCII \<le> 255)) (\<lambda>_.
     let a = ASCII div 100; b = (ASCII div 10) mod 10; c = ASCII mod 10 in
     bind getCurrent (\<lambda>current.
     bind (lift (getFlatPixel current pos)) (\<lambda>(red, green, blue).
     let red = encode_channel red a;
         green = encode_channel green b;
         blue = encode_channel blue c;
         pixel = (red, green, blue)
     in writing (\<lambda>current. setFlatPixel current pos pixel)))))"

text \<open>\<open>_ASCII_encode\<close>: element \<open>x\<close> of the list goes into pixel \<open>x\<close>.\<close>

definition ASCII_encode :: "int list \<Rightarrow> (image, unit) prog" where
  "ASCII_encode thelist =
     bind (assert (is_ASCII thelist = Some True)) (\<lambda>_.
     for_each [0..<length thelist] (\<lambda>x.
       let v = thelist ! x in encode_pixel (int x) v))"

definition encode :: "pystr \<Rightarrow> (image, bool) prog" where
  "encode text =
     (if length text > 999999 then return False
      else
        let string = py_str (int (length text));
            character_length = length string;
            characters_total = character_length + 4 + length text in
        bind getCurrent (\<lambda>current.
        let maximum = getLength current in
        if characters_total > maximum then return False
        else
          let marker_start = [125, 126];
              marker_end = [126, 123];
              marker = marker_start @ string @ marker_end;
              ASCII_code = text_to_ASCII marker @ text_to_ASCII text in
          bind (ASCII_encode ASCII_code) (\<lambda>_. return True)))"

subsection \<open>Decoding\<close>

definition decode_pixel :: "int \<Rightarrow> (image, int) prog" where
  "decode_pixel pos =
     bind getCurrent (\<lambda>current.
     bind (lift (getFlatPixel current pos)) (\<lambda>(red, green, blue).
     return ((red mod 10) * 100 + (green mod 10) * 10 + blue mod 10)))"

text \<open>\<open>_pixels_to_ASCII\<close>: the loop appends the number hidden in each pixel.\<close>

fun pixels_to_ASCII_loop :: "nat list \<Rightarrow> int list \<Rightarrow> (image, int list) prog" where
  "pixels_to_ASCII_loop [] acc = return acc"
| "pixels_to_ASCII_loop (x # xs) acc =
     bind (decode_pixel (int x)) (\<lambda>v. pixels_to_ASCII_loop xs (acc @ [v]))"

definition pixels_to_ASCII :: "image \<Rightarrow> (image, int list) prog" where
  "pixels_to_ASCII img = (let n = getLength img in pixels_to_ASCII_loop [0..<n] [])"

text \<open>\<open>_translate_ASCII\<close>: \<open>chr\<close> of every code, appended to the string.\<close>

fun translate_loop :: "int list \<Rightarrow> pystr \<Rightarrow> error + pystr" where
  "translate_loop [] string = Inr string"
| "translate_loop (x # xs) string =
     (case py_chr x of Inl e \<Rightarrow> Inl e | Inr c \<Rightarrow> translate_loop xs (string @ [c]))"

definition translate_ASCII :: "int list \<Rightarrow> error + pystr" where
  "translate_ASCII code =
     (if is_ASCII code = Some True then translate_loop code [] else Inl AssertionError)"

text \<open>
  \<open>_Code_to_Int\<close> returns the integer, or \<open>False\<close> on a \<open>ValueError\<close>. Its callers
  compare the result with \<open>False\<close>, and in Python \<open>0 == False\<close>.
\<close>

datatype int_or_False = PyInt int | PyFalse

definition Code_to_Int :: "pystr \<Rightarrow> int_or_False" where
  "Code_to_Int string = (case py_int string of Some i \<Rightarrow> PyInt i | None \<Rightarrow> PyFalse)"

definition eq_False :: "int_or_False \<Rightarrow> bool" where
  "eq_False v = (case v of PyFalse \<Rightarrow> True | PyInt i \<Rightarrow> i = 0)"

definition isMarker :: "int list \<Rightarrow> error + bool" where
  "isMarker thelist =
     (if is_ASCII thelist = Some False then Inr False
      else
        let marker1 = take 2 thelist in
        if marker1 \<noteq> [125, 126] then Inr False
        else
          let rest = drop 2 thelist in
          case py_index rest 126 of Inl e \<Rightarrow> Inl e
          | Inr i \<Rightarrow>
              let pos = i + 2 in
              (case py_nth thelist (pos + 1) of Inl e \<Rightarrow> Inl e
               | Inr y \<Rightarrow>
                   if y \<noteq> 123 then Inr False
                   else
                     let between = take (pos - 2) (drop 2 thelist) in
                     if length between > 6 then Inr False
                     else
                       (case translate_ASCII between of Inl e \<Rightarrow> Inl e
                        | Inr number \<Rightarrow>
                            if eq_False (Code_to_Int number) then Inr False
                            else Inr True)))"

definition getLengthCode :: "int list \<Rightarrow> error + int_or_False" where
  "getLengthCode thelist =
     (if is_ASCII thelist = Some True
      then
        let rest = drop 2 thelist in
        case py_index rest 126 of Inl e \<Rightarrow> Inl e
        | Inr pos \<Rightarrow>
            let thelist = take pos rest in
            (case translate_ASCII thelist of Inl e \<Rightarrow> Inl e
             | Inr string \<Rightarrow> Inr (Code_to_Int string))
      else Inl AssertionError)"

text \<open>\<open>str(x)\<close> and \<open>start + x\<close> where \<open>x\<close> is an integer or \<open>False\<close>.\<close>

definition str_val :: "int_or_False \<Rightarrow> pystr" where
  "str_val v = (case v of PyInt i \<Rightarrow> py_str i | PyFalse \<Rightarrow> [70, 97, 108, 115, 101])"

definition int_val :: "int_or_False \<Rightarrow> int" where
  "int_val v = (case v of PyInt i \<Rightarrow> i | PyFalse \<Rightarrow> 0)"

text \<open>\<open>decode\<close> returns the hidden text, or \<open>None\<close>.\<close>

definition decode :: "(image, pystr option) prog" where
  "decode =
     bind getCurrent (\<lambda>current.
     bind (pixels_to_ASCII current) (\<lambda>message_code.
     bind (lift (isMarker message_code)) (\<lambda>m.
     if m = False then return None
     else
       bind (lift (getLengthCode message_code)) (\<lambda>length_text.
       let charac_length = length (str_val length_text);
           start = 4 + int charac_length;
           stop = start + int_val length_text;
           text_code = py_slice message_code start stop in
       bind (lift (translate_ASCII text_code)) (\<lambda>t. return (Some t))))))"

section \<open>Geometric transforms\<close>

text \<open>
  \<open>transpose\<close> reads from a copy taken before the width is changed, and writes the
  current image. The bounds of the two loops are read from the resized image.
\<close>

definition transpose_img :: "(image, unit) prog" where
  "transpose_img =
     bind getCurrent (\<lambda>current.
     let original = copy current in
     bind (writing (\<lambda>current. setWidth current (int (getHeight current)))) (\<lambda>_.
     bind getCurrent (\<lambda>current.
     for_each [0..<getHeight current] (\<lambda>row.
       bind getCurrent (\<lambda>current.
       for_each [0..<getWidth current] (\<lambda>col.
         bind (lift (getPixel original (int col) (int row))) (\<lambda>p.
         writing (\<lambda>current. setPixel current (int row) (int col) p))))))))"

definition rotateRight :: "(image, unit) prog" where
  "rotateRight =
     bind getCurrent (\<lambda>current.
     let original = copy current in
     bind (writing (\<lambda>current. setWidth current (int (getHeight current)))) (\<lambda>_.
     bind getCurrent (\<lambda>current.
     for_each [0..<getHeight current] (\<lambda>row.
       bind getCurrent (\<lambda>current.
       for_each [0..<getWidth current] (\<lambda>col.
         bind (lift (getPixel original (int (getHeight original) - int col - 1) (int row))) (\<lambda>p.
         writing (\<lambda>current. setPixel current (int row) (int col) p))))))))"

section \<open>Block filters\<close>

text \<open>\<open>range(a, b)\<close> and \<open>range(a, b, step)\<close> for a positive step.\<close>

definition py_range :: "int \<Rightarrow> int \<Rightarrow> int list" where
  "py_range a b = map (\<lambda>i. a + int i) [0..<nat (b - a)]"

definition py_range_step :: "int \<Rightarrow> int \<Rightarrow> int \<Rightarrow> int list" where
  "py_range_step a b step = map (\<lambda>i. a + int i * step) [0..<nat ((b - a + step - 1) div step)]"

subsection \<open>Bars\<close>

definition drawHBar :: "int \<Rightarrow> pixel \<Rightarrow> (image, unit) prog" where
  "drawHBar row pixel =
     bind getCurrent (\<lambda>current.
     for_each [0..<getWidth current] (\<lambda>col.
       bind (writing (\<lambda>current. setPixel current row (int col) pixel)) (\<lambda>_.
       bind (writing (\<lambda>current. setPixel current (row + 1) (int col) pixel)) (\<lambda>_.
       writing (\<lambda>current. setPixel current (row + 2) (int col) pixel)))))"

definition drawVBar :: "int \<Rightarrow> pixel \<Rightarrow> (image, unit) prog" where
  "drawVBar col pixel =
     bind getCurrent (\<lambda>current.
     for_each [0..<getHeight current] (\<lambda>row.
       bind (writing (\<lambda>current. setPixel current (int row) col pixel)) (\<lambda>_.
       bind (writing (\<lambda>current. setPixel current (int row) (col + 1) pixel)) (\<lambda>_.
       bind (writing (\<lambda>current. setPixel current (int row) (col + 2) pixel)) (\<lambda>_.
       writing (\<lambda>current. setPixel current (int row) (col + 3) pixel))))))"

text \<open>
  \<open>jail\<close>: \<open>dist\<close> is the float \<open>(w-4)/(n+2)\<close>, and bar \<open>x\<close> starts at column
  \<open>int(x*dist)\<close>, for \<open>x\<close> in \<open>range(n+3)\<close>. The model computes \<open>dist\<close> and
  \<open>x*dist\<close> exactly. This is what binary64 gives where \<open>n+2\<close> divides \<open>w-4\<close>, as
  at width 120 with \<open>dist = 29.0\<close>; at other widths a product that rounds to just
  below an integer can start a bar one column earlier than the model does.
\<close>

definition jail :: "(image, unit) prog" where
  "jail =
     (let pixel = (255, 0, 0) in
      bind getCurrent (\<lambda>current.
      let w = int (getWidth current);
          h = int (getHeight current) in
      bind (drawHBar 0 pixel) (\<lambda>_.
      bind (drawHBar (h - 3) pixel) (\<lambda>_.
      let n = (w - 8) div 50 in
      bind (lift (py_truediv (w - 4) (n + 2))) (\<lambda>dist.
      for_each [0..<nat (n + 3)] (\<lambda>x.
        drawVBar (py_trunc (of_nat x * dist)) pixel))))))"

subsection \<open>Pixellation\<close>

text \<open>
  The first pair of loops of \<open>_avgRGB\<close> works on the local variables \<open>red\<close>,
  \<open>green\<close>, \<open>blue\<close> and \<open>countk\<close>. Its body reads one pixel of \<open>current\<close> and
  adds it; when \<open>getPixel\<close> raises, nothing has been added yet.
\<close>

type_synonym rgb_sums = "int \<times> int \<times> int \<times> int"

definition add_pixel :: "image \<Rightarrow> int \<Rightarrow> int \<Rightarrow> (rgb_sums, unit) prog" where
  "add_pixel current k j =
     (\<lambda>(red, green, blue, countk).
        case getPixel current k j of
          Inl e \<Rightarrow> (Inl e, (red, green, blue, countk))
        | Inr (r, g, b) \<Rightarrow> (Inr (), (red + r, green + g, blue + b, countk + 1)))"

text \<open>
  \<open>_avgRGB\<close>, without its \<open>print\<close> calls. The parameter \<open>current\<close> is the editor's
  current image. Each access is inside its own \<open>try\<close>, and each inner loop is inside
  another.
\<close>

definition avgRGB :: "int \<Rightarrow> int \<Rightarrow> int \<Rightarrow> (image, unit) prog" where
  "avgRGB x y step =
     bind getCurrent (\<lambda>current.
     case for_each (py_range x (x + step)) (\<lambda>k.
            try_except_AssertionError
              (for_each (py_range y (y + step)) (\<lambda>j.
                 try_except_AssertionError (add_pixel current k j)))) (0, 0, 0, 0) of
       (Inl e, _) \<Rightarrow> raise e
     | (Inr _, (red, green, blue, countk)) \<Rightarrow>
         bind (lift (py_truediv red countk)) (\<lambda>qr.
         let avgRed = py_trunc qr in
         bind (lift (py_truediv green countk)) (\<lambda>qg.
         let avgGreen = py_trunc qg in
         bind (lift (py_truediv blue countk)) (\<lambda>qb.
         let avgBlue = py_trunc qb;
             pixel = (avgRed, avgGreen, avgBlue) in
         for_each (py_range x (x + step)) (\<lambda>k.
           try_except_AssertionError
             (for_each (py_range y (y + step)) (\<lambda>j.
                try_except_AssertionError
                  (writing (\<lambda>current. setPixel current k j pixel)))))))))"

definition pixellate :: "int \<Rightarrow> (image, unit) prog" where
  "pixellate step =
     bind (assert (step > 0)) (\<lambda>_.
     bind getCurrent (\<lambda>current.
     let w = int (getWidth current);
         h = int (getHeight current) in
     for_each (py_range_step 0 h step) (\<lambda>x.
       for_each (py_range_step 0 w step) (\<lambda>y.
         avgRGB x y step))))"

section \<open>Notions used in the statements\<close>

text \<open>A program that leaves the state as it found it, whatever it returns or raises.\<close>

definition read_only :: "('s, 'a) prog \<Rightarrow> bool" where
  "read_only m = (\<forall>s. snd (m s) = s)"

text \<open>The pixel in row \<open>r\<close> and column \<open>c\<close> of a well-formed image.\<close>

definition pix :: "image \<Rightarrow> nat \<Rightarrow> nat \<Rightarrow> pixel" where
  "pix img r c = pixels img ! (r * width img + c)"

text \<open>What \<open>_encode_pixel\<close> makes of a pixel, and the number \<open>_decode_pixel\<close> reads.\<close>

definition hide :: "int \<Rightarrow> pixel \<Rightarrow> pixel" where
  "hide v p = (case p of (red, green, blue) \<Rightarrow>
     (encode_channel red (v div 100), encode_channel green ((v div 10) mod 10),
      encode_channel blue (v mod 10)))"

definition hidden :: "pixel \<Rightarrow> int" where
  "hidden p = (case p of (red, green, blue) \<Rightarrow>
     (red mod 10) * 100 + (green mod 10) * 10 + blue mod 10)"

text \<open>
  The block of \<open>pixellate\<close> with top-left corner \<open>(x, y)\<close>: rows \<open>[x, min(x+step, height))\<close>
  and columns \<open>[y, min(y+step, width))\<close>. Its average is the truncated mean of each
  channel over the pixels of the block.
\<close>

definition block_pixels :: "image \<Rightarrow> nat \<Rightarrow> nat \<Rightarrow> nat \<Rightarrow> pixel list" where
  "block_pixels img x y step =
     concat (map (\<lambda>r. map (\<lambda>c. pix img r c) [y..<min (y + step) (width img)])
                 [x..<min (x + step) (height img)])"

definition truncated_mean :: "int list \<Rightarrow> int" where
  "truncated_mean vs = py_trunc (rat_of_int (sum_list vs) / rat_of_int (int (length vs)))"

definition block_average :: "image \<Rightarrow> nat \<Rightarrow> nat \<Rightarrow> nat \<Rightarrow> pixel" where
  "block_average img x y step =
     (let ps = block_pixels img x y step
      in (truncated_mean (map fst ps), truncated_mean (map (\<lambda>p. fst (snd p)) ps),
          truncated_mean (map (\<lambda>p. snd (snd p)) ps)))"

text \<open>One step of the sums of \<open>_avgRGB\<close>.\<close>

definition add_rgb :: "pixel \<Rightarrow> rgb_sums \<Rightarrow> rgb_sums" where
  "add_rgb p acc = (case acc of (red, green, blue, countk) \<Rightarrow>
     (red + fst p, green + fst (snd p), blue + snd (snd p), countk + 1))"

text \<open>
  The state of \<open>pixellate\<close> when the blocks with indices in \<open>P\<close> have been averaged:
  their pixels hold the average of the original block, the others are untouched.
\<close>

definition blocks_done :: "image \<Rightarrow> nat \<Rightarrow> (nat \<times> nat) set \<Rightarrow> image \<Rightarrow> bool" where
  "blocks_done orig st P t =
     (wf_image t \<and> width t = width orig \<and> height t = height orig
      \<and> (\<forall>r<height orig. \<forall>c<width orig.
            pix t r c = (if (r div st, c div st) \<in> P
                         then block_average orig (r div st * st) (c div st * st) st
                         else pix orig r c)))"

section \<open>General facts about programs\<close>

lemmas prog_defs =
  return_def raise_def bind_def assert_def lift_def getCurrent_def writing_def
  try_except_AssertionError_def

lemma read_only_bind:
  "read_only m \<Longrightarrow> (\<And>x. read_only (f x)) \<Longrightarrow> read_only (bind m f)"
  by (auto simp: read_only_def bind_def split: prod.splits sum.splits) (metis snd_conv)+

lemma read_only_basic:
  "read_only (return x)" "read_only (raise e)" "read_only (lift r)" "read_only getCurrent"
  by (simp_all add: read_only_def return_def raise_def lift_def getCurrent_def)

section \<open>The channel digit\<close>

lemma tens_plus_digit:
  fixes q d :: int
  assumes "0 \<le> d" "d \<le> 9"
  shows "(q * 10 + d) mod 10 = d" and "(q * 10 + d) div 10 = q"
  using assms by simp_all

lemma tens_plus_digit_less:
  fixes q d :: int
  assumes "0 \<le> d" "d \<le> 9"
  shows "(q * 10 + d - 10) mod 10 = d" and "(q * 10 + d - 10) div 10 = q - 1"
proof -
  have e: "q * 10 + d - 10 = (q - 1) * 10 + d" by (simp add: algebra_simps)
  show "(q * 10 + d - 10) mod 10 = d"
    using tens_plus_digit(1) [OF assms, of "q - 1"] by (simp only: e)
  show "(q * 10 + d - 10) div 10 = q - 1"
    using tens_plus_digit(2) [OF assms, of "q - 1"] by (simp only: e)
qed

lemma encode_channel_mod:
  "0 \<le> digit \<Longrightarrow> digit \<le> 9 \<Longrightarrow> encode_channel channel digit mod 10 = digit"
  unfolding encode_channel_def Let_def by (simp add: tens_plus_digit tens_plus_digit_less)

lemma encode_channel_range:
  assumes "0 \<le> channel" "channel \<le> 255" "0 \<le> digit" "digit \<le> 9"
  shows "encode_channel channel digit mod 10 = digit
       \<and> 0 \<le> encode_channel channel digit \<and> encode_channel channel digit \<le> 255
       \<and> encode_channel channel digit div 10 =
           (if (channel div 10) * 10 + digit > 255 then channel div 10 - 1 else channel div 10)"
proof -
  have q0: "0 \<le> channel div 10" using assms(1) by (simp add: pos_imp_zdiv_nonneg_iff)
  have "channel div 10 \<le> 255 div 10" using assms(2) by (rule zdiv_mono1) simp
  then have q1: "channel div 10 \<le> 25" by simp
  show ?thesis
    using q0 q1 assms(3,4) unfolding encode_channel_def Let_def
    by (simp add: tens_plus_digit tens_plus_digit_less)
qed

lemma encode_pixel_stores:
  assumes "pos < length (pixels img)" "pixels img ! pos = (red, green, blue)"
    and "0 \<le> ASCII" "ASCII \<le> 255"
  shows "encode_pixel (int pos) ASCII img
         = (Inr (), img\<lparr>pixels := (pixels img)
              [pos := (encode_channel red (ASCII div 100),
                       encode_channel green ((ASCII div 10) mod 10),
                       encode_channel blue (ASCII mod 10))]\<rparr>)"
  using assms
  by (simp add: encode_pixel_def prog_defs getFlatPixel_def setFlatPixel_def Let_def)

text \<open>
  Claim C7. When pixel \<open>pos\<close> of the image has its three channels in \<open>0..255\<close> and
  the code is in \<open>0..255\<close>, \<open>_encode_pixel\<close> succeeds and replaces that pixel only.
  The red, green and blue values it stores have the hundreds, tens and ones digit of
  the code as their ones digit and lie in \<open>0..255\<close>. The tens-and-higher part of each
  is that of the channel before, except when \<open>(channel//10)*10 + digit\<close> exceeds 255:
  then it is lower by one ten. The same holds of the per-channel statement of
  \<open>_encode_pixel\<close> for every channel value in \<open>0..255\<close> and every digit in \<open>0..9\<close>.
\<close>

theorem encode_pixel_invariant:
  assumes "pos < length (pixels img)" "pixels img ! pos = (red, green, blue)"
    and "0 \<le> red" "red \<le> 255" "0 \<le> green" "green \<le> 255" "0 \<le> blue" "blue \<le> 255"
    and "0 \<le> ASCII" "ASCII \<le> 255"
  shows "\<exists>red' green' blue'.
           encode_pixel (int pos) ASCII img
             = (Inr (), img\<lparr>pixels := (pixels img)[pos := (red', green', blue')]\<rparr>)
         \<and> red' mod 10 = ASCII div 100
         \<and> green' mod 10 = (ASCII div 10) mod 10
         \<and> blue' mod 10 = ASCII mod 10
         \<and> 0 \<le> red' \<and> red' \<le> 255 \<and> 0 \<le> green' \<and> green' \<le> 255
         \<and> 0 \<le> blue' \<and> blue' \<le> 255
         \<and> red' div 10 = (if (red div 10) * 10 + ASCII div 100 > 255
                           then red div 10 - 1 else red div 10)
         \<and> green' div 10 = (if (green div 10) * 10 + (ASCII div 10) mod 10 > 255
                             then green div 10 - 1 else green div 10)
         \<and> blue' div 10 = (if (blue div 10) * 10 + ASCII mod 10 > 255
                            then blue div 10 - 1 else blue div 10)
         \<and> (\<forall>channel digit. 0 \<le> channel \<and> channel \<le> 255 \<and> 0 \<le> digit \<and> digit \<le> 9 \<longrightarrow>
                encode_channel channel digit mod 10 = digit
              \<and> 0 \<le> encode_channel channel digit \<and> encode_channel channel digit \<le> 255
              \<and> encode_channel channel digit div 10 =
                  (if (channel div 10) * 10 + digit > 255
                   then channel div 10 - 1 else channel div 10))"
proof -
  have a0: "0 \<le> ASCII div 100" using assms(9) by (simp add: pos_imp_zdiv_nonneg_iff)
  have "ASCII div 100 \<le> 255 div 100" using assms(10) by (rule zdiv_mono1) simp
  then have a9: "ASCII div 100 \<le> 9" by simp
  have b: "0 \<le> (ASCII div 10) mod 10" "(ASCII div 10) mod 10 \<le> 9" by simp_all
  have c: "0 \<le> ASCII mod 10" "ASCII mod 10 \<le> 9" by simp_all
  note r = encode_channel_range [OF assms(3,4) a0 a9]
  note g = encode_channel_range [OF assms(5,6) b]
  note bl = encode_channel_range [OF assms(7,8) c]
  have every: "\<forall>channel digit. 0 \<le> channel \<and> channel \<le> 255 \<and> 0 \<le> digit \<and> digit \<le> 9 \<longrightarrow>
                encode_channel channel digit mod 10 = digit
              \<and> 0 \<le> encode_channel channel digit \<and> encode_channel channel digit \<le> 255
              \<and> encode_channel channel digit div 10 =
                  (if (channel div 10) * 10 + digit > 255
                   then channel div 10 - 1 else channel div 10)"
    using encode_channel_range by blast
  show ?thesis
    apply (rule exI [of _ "encode_channel red (ASCII div 100)"])
    apply (rule exI [of _ "encode_channel green ((ASCII div 10) mod 10)"])
    apply (rule exI [of _ "encode_channel blue (ASCII mod 10)"])
    using encode_pixel_stores [OF assms(1,2,9,10)] r g bl every
    apply blast
    done
qed

text \<open>The example of the docstring: the code 165 in the pixel \<open>(199, 254, 247)\<close>.\<close>

theorem encode_pixel_invariant_witness:
  "(0::nat) < length (pixels \<lparr>pixels = [(199, 254, 247)], width = 1, height = 1\<rparr>)
   \<and> pixels \<lparr>pixels = [(199, 254, 247)], width = 1, height = 1\<rparr> ! 0 = (199, 254, 247)
   \<and> (0::int) \<le> 199 \<and> (199::int) \<le> 255 \<and> (0::int) \<le> 254 \<and> (254::int) \<le> 255
   \<and> (0::int) \<le> 247 \<and> (247::int) \<le> 255 \<and> (0::int) \<le> 165 \<and> (165::int) \<le> 255
   \<and> encode_pixel 0 165 \<lparr>pixels = [(199, 254, 247)], width = 1, height = 1\<rparr>
       = (Inr (), \<lparr>pixels = [(191, 246, 245)], width = 1, height = 1\<rparr>)
   \<and> encode_channel 254 7 = 247"
proof -
  have stored: "encode_pixel 0 165 \<lparr>pixels = [(199, 254, 247)], width = 1, height = 1\<rparr>
       = (Inr (), \<lparr>pixels = [(191, 246, 245)], width = 1, height = 1\<rparr>)"
    by code_simp
  show ?thesis
    using encode_pixel_invariant
      [of 0 "\<lparr>pixels = [(199, 254, 247)], width = 1, height = 1\<rparr>" 199 254 247 165] stored
    by (simp add: encode_channel_def)
qed

section \<open>Encoding fails without writing\<close>

text \<open>
  Claim C2. When the text has more than 999999 characters, or the frame of
  \<open>4 + len(str(len(text))) + len(text)\<close> characters is longer than the image has
  pixels, \<open>encode\<close> returns \<open>False\<close> and the image is the one it was given.
\<close>

theorem encode_capacity_failure:
  assumes "length text > 999999
         \<or> 4 + length (py_str (int (length text))) + length text > getLength img"
  shows "encode text img = (Inr False, img)"
  using assms by (auto simp: encode_def Let_def bind_def getCurrent_def return_def)

theorem encode_capacity_failure_witness:
  "4 + length (py_str (int (length [104, 105::nat]))) + length [104, 105::nat]
     > getLength \<lparr>pixels = [(0, 0, 0), (9, 9, 9), (20, 20, 20), (1, 2, 3), (4, 5, 6), (7, 8, 9)],
                   width = 3, height = 2\<rparr>
   \<and> encode [104, 105]
        \<lparr>pixels = [(0, 0, 0), (9, 9, 9), (20, 20, 20), (1, 2, 3), (4, 5, 6), (7, 8, 9)],
          width = 3, height = 2\<rparr>
      = (Inr False,
         \<lparr>pixels = [(0, 0, 0), (9, 9, 9), (20, 20, 20), (1, 2, 3), (4, 5, 6), (7, 8, 9)],
           width = 3, height = 2\<rparr>)"
  using encode_capacity_failure [of "[104, 105]"
      "\<lparr>pixels = [(0, 0, 0), (9, 9, 9), (20, 20, 20), (1, 2, 3), (4, 5, 6), (7, 8, 9)],
        width = 3, height = 2\<rparr>"]
  by (simp add: getLength_def py_str_def nat_digits.simps)

section \<open>Decoding\<close>

lemma read_only_decode_pixel: "read_only (decode_pixel pos)"
  unfolding decode_pixel_def
  by (intro read_only_bind read_only_basic) (auto simp: read_only_basic split: prod.splits)

lemma read_only_pixels_to_ASCII_loop: "read_only (pixels_to_ASCII_loop xs acc)"
  by (induction xs arbitrary: acc)
     (auto intro!: read_only_bind read_only_basic read_only_decode_pixel)

lemma read_only_decode: "read_only decode"
  unfolding decode_def pixels_to_ASCII_def Let_def
  by (intro read_only_bind read_only_basic read_only_pixels_to_ASCII_loop)
     (auto intro!: read_only_bind read_only_basic)

text \<open>
  Claim C10. \<open>decode\<close> leaves the image as it is: the width, the height and every
  pixel after the call are those before it, whether the call returns a message,
  returns \<open>None\<close> or raises.
\<close>

theorem decode_leaves_image: "snd (decode img) = img"
  using read_only_decode by (simp add: read_only_def)

text \<open>
  Claim C3. The four pixels below hide the codes 125, 126, 57, 88: the text
  \<open>}~9X\<close>, which starts like a marker and has no closing \<open>~{\<close>. \<open>_isMarker\<close> looks
  for the second \<open>~\<close> with \<open>list.index\<close>, which raises \<open>ValueError\<close>; nothing
  catches it, so \<open>decode\<close> raises instead of returning \<open>None\<close>.
\<close>

theorem decode_unclosed_marker_raises:
  "decode \<lparr>pixels = [(1, 2, 5), (1, 2, 6), (0, 5, 7), (0, 8, 8)], width = 4, height = 1\<rparr>
   = (Inl ValueError,
      \<lparr>pixels = [(1, 2, 5), (1, 2, 6), (0, 5, 7), (0, 8, 8)], width = 4, height = 1\<rparr>)"
  by code_simp

section \<open>Loops that fill the grid\<close>

lemma for_each_fold:
  assumes "I s"
    and "\<And>x s. x \<in> set xs \<Longrightarrow> I s \<Longrightarrow> body x s = (Inr (), g x s) \<and> I (g x s)"
  shows "for_each xs body s = (Inr (), fold g xs s) \<and> I (fold g xs s)"
  using assms
proof (induction xs arbitrary: s)
  case Nil
  then show ?case by (simp add: return_def)
next
  case (Cons x xs)
  have step: "body x s = (Inr (), g x s)" "I (g x s)"
    using Cons.prems(2) [of x s] Cons.prems(1) by simp_all
  have "for_each xs body (g x s) = (Inr (), fold g xs (g x s)) \<and> I (fold g xs (g x s))"
    by (rule Cons.IH [OF step(2)]) (simp add: Cons.prems(2))
  then show ?case by (simp add: bind_def step(1))
qed

lemma cell_index_less:
  fixes r c W H :: nat
  assumes "r < H" "c < W"
  shows "r * W + c < W * H"
proof -
  have "r * W + c < r * W + W" using assms(2) by simp
  also have "\<dots> = Suc r * W" by simp
  also have "\<dots> \<le> H * W" using assms(1) by (intro mult_le_mono1) simp
  finally show ?thesis by (simp add: mult.commute)
qed

lemma cell_index_inj:
  fixes r c r' c' W :: nat
  assumes "c < W" "c' < W" "r * W + c = r' * W + c'"
  shows "r = r' \<and> c = c'"
proof -
  have "(r * W + c) div W = r" "(r' * W + c') div W = r'" using assms(1,2) by simp_all
  then have "r = r'" using assms(3) by simp
  then show ?thesis using assms(3) by simp
qed

lemma getPixel_nat:
  assumes "wf_image img" "r < height img" "c < width img"
  shows "getPixel img (int r) (int c) = Inr (pix img r c)"
proof -
  have "r * width img + c < length (pixels img)"
    using cell_index_less [OF assms(2,3)] assms(1) by (simp add: wf_image_def)
  moreover have "nat (int r * int (width img) + int c) = r * width img + c"
    by (simp add: nat_add_distrib nat_mult_distrib)
  ultimately show ?thesis
    using assms(2,3) by (simp add: getPixel_def in_grid_def flat_index_def py_nth_def pix_def)
qed

lemma setPixel_nat:
  assumes "wf_image img" "r < height img" "c < width img"
  shows "setPixel img (int r) (int c) p =
         Inr (img\<lparr>pixels := (pixels img)[r * width img + c := p]\<rparr>)"
proof -
  have "r * width img + c < length (pixels img)"
    using cell_index_less [OF assms(2,3)] assms(1) by (simp add: wf_image_def)
  moreover have "nat (int r * int (width img) + int c) = r * width img + c"
    by (simp add: nat_add_distrib nat_mult_distrib)
  ultimately show ?thesis
    using assms(2,3) by (simp add: setPixel_def in_grid_def flat_index_def)
qed

lemma fold_writes_length:
  "length (fold (\<lambda>x ps. ps[idx x := val x]) xs ps) = length ps"
  by (induction xs arbitrary: ps) simp_all

lemma fold_writes_nth:
  assumes "inj_on idx (set xs)" "x \<in> set xs" "idx x < length ps"
  shows "fold (\<lambda>x ps. ps[idx x := val x]) xs ps ! idx x = val x"
  using assms
proof (induction xs arbitrary: x rule: rev_induct)
  case Nil
  then show ?case by simp
next
  case (snoc y ys)
  show ?case
  proof (cases "x = y")
    case True
    then show ?thesis using snoc.prems(3) by (simp add: fold_writes_length)
  next
    case False
    then have xin: "x \<in> set ys" using snoc.prems(2) by simp
    have "idx x \<noteq> idx y"
      using snoc.prems(1) False xin by (auto simp: inj_on_def)
    moreover have "inj_on idx (set ys)" using snoc.prems(1) by (simp add: inj_on_def)
    ultimately show ?thesis
      using snoc.IH [OF _ xin snoc.prems(3)] by simp
  qed
qed

lemma fold_product:
  "fold (\<lambda>r. fold (h r) cs) rs s = fold (\<lambda>(r, c). h r c) (List.product rs cs) s"
  by (induction rs arbitrary: s) (simp_all add: fold_map comp_def)

lemma fold_pixels:
  "fold (\<lambda>x s. s\<lparr>pixels := (pixels s)[idx x := val x]\<rparr>) xs s =
   s\<lparr>pixels := fold (\<lambda>x ps. ps[idx x := val x]) xs (pixels s)\<rparr>"
  by (induction xs arbitrary: s) simp_all

lemma fill_loop:
  assumes wf: "wf_image s" and hs: "height s = W" and ws: "width s = H"
    and src: "\<And>r c. r < W \<Longrightarrow> c < H \<Longrightarrow> src r c = Inr (v r c)"
  shows "\<exists>s'. for_each [0..<W] (\<lambda>row.
            bind getCurrent (\<lambda>current.
            for_each [0..<getWidth current] (\<lambda>col.
              bind (lift (src row col)) (\<lambda>p.
              writing (\<lambda>current. setPixel current (int row) (int col) p))))) s = (Inr (), s')
          \<and> wf_image s' \<and> width s' = H \<and> height s' = W
          \<and> (\<forall>r<W. \<forall>c<H. pix s' r c = v r c)"
proof -
  define I where "I = (\<lambda>t. wf_image t \<and> width t = H \<and> height t = W)"
  define idx where "idx = (\<lambda>(r, c). r * H + c)"
  define val where "val = (\<lambda>(r, c). v r c)"
  define g where "g = (\<lambda>r c (t::image). t\<lparr>pixels := (pixels t)[idx (r, c) := val (r, c)]\<rparr>)"
  define inner where "inner = (\<lambda>row col.
              bind (lift (src row col)) (\<lambda>p.
              writing (\<lambda>current. setPixel current (int row) (int col) p)))"
  have cell: "inner r c t = (Inr (), g r c t) \<and> I (g r c t)" if "r < W" "c < H" "I t" for r c t
  proof -
    have "setPixel t (int r) (int c) (v r c) = Inr (g r c t)"
      using setPixel_nat [of t r c "v r c"] that by (simp add: I_def g_def idx_def val_def)
    moreover have "I (g r c t)"
      using that(3) by (simp add: I_def g_def wf_image_def)
    ultimately show ?thesis
      using src [OF that(1,2)] by (simp add: inner_def prog_defs)
  qed
  have row: "bind getCurrent (\<lambda>current. for_each [0..<getWidth current] (inner r)) t
             = (Inr (), fold (g r) [0..<H] t) \<and> I (fold (g r) [0..<H] t)"
    if "r < W" "I t" for r t
  proof -
    have "for_each [0..<H] (inner r) t = (Inr (), fold (g r) [0..<H] t)
          \<and> I (fold (g r) [0..<H] t)"
      by (rule for_each_fold [where I = I, OF that(2)]) (simp add: cell that(1))
    then show ?thesis using that(2) by (simp add: prog_defs getWidth_def I_def)
  qed
  define s' where "s' = fold (\<lambda>r. fold (g r) [0..<H]) [0..<W] s"
  have "I s" using wf hs ws by (simp add: I_def)
  then have run: "for_each [0..<W] (\<lambda>row. bind getCurrent (\<lambda>current.
                    for_each [0..<getWidth current] (inner row))) s = (Inr (), s') \<and> I s'"
    unfolding s'_def by (rule for_each_fold [where I = I]) (simp add: row)
  have "s' = fold (\<lambda>x t. t\<lparr>pixels := (pixels t)[idx x := val x]\<rparr>) (List.product [0..<W] [0..<H]) s"
  proof -
    have "(\<lambda>(r, c). g r c) = (\<lambda>x t. t\<lparr>pixels := (pixels t)[idx x := val x]\<rparr>)"
      by (auto simp: g_def fun_eq_iff)
    then show ?thesis unfolding s'_def fold_product by simp
  qed
  then have px: "pixels s' = fold (\<lambda>x ps. ps[idx x := val x]) (List.product [0..<W] [0..<H]) (pixels s)"
    by (simp add: fold_pixels)
  have inj: "inj_on idx (set (List.product [0..<W] [0..<H]))"
    by (auto simp: inj_on_def idx_def dest: cell_index_inj)
  have "pix s' r c = v r c" if "r < W" "c < H" for r c
  proof -
    have "idx (r, c) < length (pixels s)"
      using cell_index_less [of r W c H] that wf hs ws by (simp add: idx_def wf_image_def)
    moreover have "(r, c) \<in> set (List.product [0..<W] [0..<H])" using that by simp
    ultimately have "pixels s' ! idx (r, c) = val (r, c)"
      unfolding px using inj by (intro fold_writes_nth)
    moreover have "width s' = H" using run by (simp add: I_def)
    ultimately show ?thesis by (simp add: pix_def idx_def val_def)
  qed
  then show ?thesis using run by (auto simp: I_def inner_def)
qed

section \<open>Transpose and rotation\<close>

lemma image_eqI:
  fixes a b :: image
  assumes "wf_image a" "wf_image b" "width a = width b" "height a = height b"
    and "\<And>r c. r < height a \<Longrightarrow> c < width a \<Longrightarrow> pix a r c = pix b r c"
  shows "a = b"
proof -
  have "pixels a = pixels b"
  proof (rule nth_equalityI)
    show "length (pixels a) = length (pixels b)"
      using assms(1-4) by (simp add: wf_image_def)
  next
    fix i assume "i < length (pixels a)"
    then have i: "i < width a * height a" using assms(1) by (simp add: wf_image_def)
    then have w: "0 < width a" by (cases "width a") simp_all
    have "i div width a < height a" using i by (simp add: less_mult_imp_div_less mult.commute)
    moreover have "i mod width a < width a" using w by simp
    ultimately have "pix a (i div width a) (i mod width a) = pix b (i div width a) (i mod width a)"
      by (rule assms(5))
    then show "pixels a ! i = pixels b ! i"
      using assms(3) by (simp add: pix_def)
  qed
  then show ?thesis using assms(3,4) by simp
qed

lemma setWidth_height:
  assumes "wf_image img" "1 \<le> height img"
  shows "setWidth img (int (height img)) = Inr (img\<lparr>width := height img, height := width img\<rparr>)"
  using assms by (simp add: setWidth_def wf_image_def flip: of_nat_mult)

lemma transpose_spec:
  assumes "wf_image img" "1 \<le> width img" "1 \<le> height img"
  shows "\<exists>img'. transpose_img img = (Inr (), img') \<and> wf_image img'
           \<and> width img' = height img \<and> height img' = width img
           \<and> (\<forall>r<width img. \<forall>c<height img. pix img' r c = pix img c r)"
proof -
  define s where "s = img\<lparr>width := height img, height := width img\<rparr>"
  have s: "wf_image s" "height s = width img" "width s = height img"
    using assms(1) by (simp_all add: s_def wf_image_def mult.commute)
  have src: "getPixel img (int c) (int r) = Inr (pix img c r)"
    if "r < width img" "c < height img" for r c
    using getPixel_nat [OF assms(1) that(2,1)] .
  obtain s' where s': "for_each [0..<width img] (\<lambda>row.
            bind getCurrent (\<lambda>current.
            for_each [0..<getWidth current] (\<lambda>col.
              bind (lift (getPixel img (int col) (int row))) (\<lambda>p.
              writing (\<lambda>current. setPixel current (int row) (int col) p))))) s = (Inr (), s')"
    "wf_image s'" "width s' = height img" "height s' = width img"
    "\<forall>r<width img. \<forall>c<height img. pix s' r c = pix img c r"
    using fill_loop [OF s, of "\<lambda>r c. getPixel img (int c) (int r)" "\<lambda>r c. pix img c r"] src
    by blast
  have "transpose_img img = (Inr (), s')"
    using s'(1) setWidth_height [OF assms(1,3)]
    by (simp add: transpose_img_def prog_defs copy_def getHeight_def s_def)
  then show ?thesis using s'(2-5) by blast
qed

lemma rotateRight_spec:
  assumes "wf_image img" "1 \<le> width img" "1 \<le> height img"
  shows "\<exists>img'. rotateRight img = (Inr (), img') \<and> wf_image img'
           \<and> width img' = height img \<and> height img' = width img
           \<and> (\<forall>r<width img. \<forall>c<height img. pix img' r c = pix img (height img - 1 - c) r)"
proof -
  define s where "s = img\<lparr>width := height img, height := width img\<rparr>"
  have s: "wf_image s" "height s = width img" "width s = height img"
    using assms(1) by (simp_all add: s_def wf_image_def mult.commute)
  have src: "getPixel img (int (height img) - int c - 1) (int r) = Inr (pix img (height img - 1 - c) r)"
    if "r < width img" "c < height img" for r c
  proof -
    have e: "int (height img) - int c - 1 = int (height img - 1 - c)" using that(2) by simp
    have "height img - 1 - c < height img" using that(2) by simp
    then show ?thesis unfolding e by (rule getPixel_nat [OF assms(1) _ that(1)])
  qed
  obtain s' where s': "for_each [0..<width img] (\<lambda>row.
            bind getCurrent (\<lambda>current.
            for_each [0..<getWidth current] (\<lambda>col.
              bind (lift (getPixel img (int (height img) - int col - 1) (int row))) (\<lambda>p.
              writing (\<lambda>current. setPixel current (int row) (int col) p))))) s = (Inr (), s')"
    "wf_image s'" "width s' = height img" "height s' = width img"
    "\<forall>r<width img. \<forall>c<height img. pix s' r c = pix img (height img - 1 - c) r"
    using fill_loop [OF s, of "\<lambda>r c. getPixel img (int (height img) - int c - 1) (int r)"
        "\<lambda>r c. pix img (height img - 1 - c) r"] src
    by blast
  have "rotateRight img = (Inr (), s')"
    using s'(1) setWidth_height [OF assms(1,3)]
    by (simp add: rotateRight_def prog_defs copy_def getHeight_def s_def)
  then show ?thesis using s'(2-5) by blast
qed

lemma getPixel_pix_eq:
  assumes "wf_image a" "wf_image b" "r < height a" "c < width a" "r' < height b" "c' < width b"
    and "pix a r c = pix b r' c'"
  shows "getPixel a (int r) (int c) = getPixel b (int r') (int c')"
  using assms by (simp add: getPixel_nat)

text \<open>
  Claim C5. On a grid with at least one row and one column, \<open>transpose\<close> succeeds,
  swaps width and height, and the new pixel at \<open>(row, col)\<close> is the old pixel at
  \<open>(col, row)\<close>. Running it twice gives back the image it started from.
\<close>

theorem transpose_involution:
  assumes "wf_image img" "1 \<le> width img" "1 \<le> height img"
  shows "fst (transpose_img img) = Inr ()
       \<and> width (snd (transpose_img img)) = height img
       \<and> height (snd (transpose_img img)) = width img
       \<and> (\<forall>row<width img. \<forall>col<height img.
             getPixel (snd (transpose_img img)) (int row) (int col)
             = getPixel img (int col) (int row))
       \<and> bind transpose_img (\<lambda>_. transpose_img) img = (Inr (), img)"
proof -
  obtain img1 where 1: "transpose_img img = (Inr (), img1)" "wf_image img1"
    "width img1 = height img" "height img1 = width img"
    "\<forall>r<width img. \<forall>c<height img. pix img1 r c = pix img c r"
    using transpose_spec [OF assms] by blast
  obtain img2 where 2: "transpose_img img1 = (Inr (), img2)" "wf_image img2"
    "width img2 = height img1" "height img2 = width img1"
    "\<forall>r<width img1. \<forall>c<height img1. pix img2 r c = pix img1 c r"
    using transpose_spec [OF 1(2)] assms(2,3) 1(3,4) by auto
  have "img2 = img"
    using 1(3-5) 2(3-5) by (intro image_eqI 2(2) assms(1)) simp_all
  then have twice: "bind transpose_img (\<lambda>_. transpose_img) img = (Inr (), img)"
    using 1(1) 2(1) by (simp add: bind_def)
  have "getPixel img1 (int row) (int col) = getPixel img (int col) (int row)"
    if "row < width img" "col < height img" for row col
    using that 1(3-5) by (intro getPixel_pix_eq 1(2) assms(1)) simp_all
  then show ?thesis using 1(1,3,4) twice by simp
qed

theorem transpose_involution_witness:
  "wf_image \<lparr>pixels = [(1, 2, 3), (4, 5, 6), (7, 8, 9), (10, 11, 12), (13, 14, 15), (16, 17, 18)],
             width = 3, height = 2\<rparr>
   \<and> transpose_img
        \<lparr>pixels = [(1, 2, 3), (4, 5, 6), (7, 8, 9), (10, 11, 12), (13, 14, 15), (16, 17, 18)],
          width = 3, height = 2\<rparr>
      = (Inr (),
         \<lparr>pixels = [(1, 2, 3), (10, 11, 12), (4, 5, 6), (13, 14, 15), (7, 8, 9), (16, 17, 18)],
           width = 2, height = 3\<rparr>)
   \<and> bind transpose_img (\<lambda>_. transpose_img)
        \<lparr>pixels = [(1, 2, 3), (4, 5, 6), (7, 8, 9), (10, 11, 12), (13, 14, 15), (16, 17, 18)],
          width = 3, height = 2\<rparr>
      = (Inr (),
         \<lparr>pixels = [(1, 2, 3), (4, 5, 6), (7, 8, 9), (10, 11, 12), (13, 14, 15), (16, 17, 18)],
           width = 3, height = 2\<rparr>)"
proof -
  have t: "transpose_img
        \<lparr>pixels = [(1, 2, 3), (4, 5, 6), (7, 8, 9), (10, 11, 12), (13, 14, 15), (16, 17, 18)],
          width = 3, height = 2\<rparr>
      = (Inr (),
         \<lparr>pixels = [(1, 2, 3), (10, 11, 12), (4, 5, 6), (13, 14, 15), (7, 8, 9), (16, 17, 18)],
           width = 2, height = 3\<rparr>)"
    by code_simp
  show ?thesis
    using transpose_involution [of
      "\<lparr>pixels = [(1, 2, 3), (4, 5, 6), (7, 8, 9), (10, 11, 12), (13, 14, 15), (16, 17, 18)],
        width = 3, height = 2\<rparr>"] t
    by (simp add: wf_image_def)
qed

text \<open>
  Claim C6. On a grid with at least one row and one column, \<open>rotateRight\<close> succeeds,
  swaps width and height, and the new pixel at \<open>(row, col)\<close> is the old pixel at
  \<open>(old_height - 1 - col, row)\<close>. Running it four times gives back the image it
  started from.
\<close>

theorem rotateRight_four_times:
  assumes "wf_image img" "1 \<le> width img" "1 \<le> height img"
  shows "fst (rotateRight img) = Inr ()
       \<and> width (snd (rotateRight img)) = height img
       \<and> height (snd (rotateRight img)) = width img
       \<and> (\<forall>row<width img. \<forall>col<height img.
             getPixel (snd (rotateRight img)) (int row) (int col)
             = getPixel img (int (height img) - 1 - int col) (int row))
       \<and> bind rotateRight (\<lambda>_. bind rotateRight (\<lambda>_. bind rotateRight (\<lambda>_. rotateRight))) img
         = (Inr (), img)"
proof -
  obtain img1 where 1: "rotateRight img = (Inr (), img1)" "wf_image img1"
    "width img1 = height img" "height img1 = width img"
    "\<forall>r<width img. \<forall>c<height img. pix img1 r c = pix img (height img - 1 - c) r"
    using rotateRight_spec [OF assms] by blast
  obtain img2 where 2: "rotateRight img1 = (Inr (), img2)" "wf_image img2"
    "width img2 = width img" "height img2 = height img"
    "\<forall>r<height img. \<forall>c<width img. pix img2 r c = pix img1 (width img - 1 - c) r"
    using rotateRight_spec [OF 1(2)] assms(2,3) 1(3,4) by auto
  obtain img3 where 3: "rotateRight img2 = (Inr (), img3)" "wf_image img3"
    "width img3 = height img" "height img3 = width img"
    "\<forall>r<width img. \<forall>c<height img. pix img3 r c = pix img2 (height img - 1 - c) r"
    using rotateRight_spec [OF 2(2)] assms(2,3) 2(3,4) by auto
  obtain img4 where 4: "rotateRight img3 = (Inr (), img4)" "wf_image img4"
    "width img4 = width img" "height img4 = height img"
    "\<forall>r<height img. \<forall>c<width img. pix img4 r c = pix img3 (width img - 1 - c) r"
    using rotateRight_spec [OF 3(2)] assms(2,3) 3(3,4) by auto
  have "pix img4 r c = pix img r c" if "r < height img" "c < width img" for r c
  proof -
    have "pix img4 r c = pix img3 (width img - 1 - c) r" using 4(5) that by simp
    also have "\<dots> = pix img2 (height img - 1 - r) (width img - 1 - c)"
      using 3(5) that by simp
    also have "\<dots> = pix img1 (width img - 1 - (width img - 1 - c)) (height img - 1 - r)"
      using 2(5) that by simp
    also have "\<dots> = pix img1 c (height img - 1 - r)" using that by simp
    also have "\<dots> = pix img (height img - 1 - (height img - 1 - r)) c"
      using 1(5) that by simp
    also have "\<dots> = pix img r c" using that by simp
    finally show ?thesis .
  qed
  then have "img4 = img"
    using 4(3,4) by (intro image_eqI 4(2) assms(1)) simp_all
  then have four: "bind rotateRight (\<lambda>_. bind rotateRight (\<lambda>_. bind rotateRight (\<lambda>_. rotateRight))) img
         = (Inr (), img)"
    using 1(1) 2(1) 3(1) 4(1) by (simp add: bind_def)
  have "getPixel img1 (int row) (int col) = getPixel img (int (height img) - 1 - int col) (int row)"
    if "row < width img" "col < height img" for row col
  proof -
    have e: "int (height img) - 1 - int col = int (height img - 1 - col)" using that(2) by simp
    show ?thesis unfolding e
      using that 1(3-5) by (intro getPixel_pix_eq 1(2) assms(1)) simp_all
  qed
  then show ?thesis using 1(1,3,4) four by simp
qed

theorem rotateRight_four_times_witness:
  "wf_image \<lparr>pixels = [(1, 2, 3), (4, 5, 6), (7, 8, 9), (10, 11, 12), (13, 14, 15), (16, 17, 18)],
             width = 3, height = 2\<rparr>
   \<and> rotateRight
        \<lparr>pixels = [(1, 2, 3), (4, 5, 6), (7, 8, 9), (10, 11, 12), (13, 14, 15), (16, 17, 18)],
          width = 3, height = 2\<rparr>
      = (Inr (),
         \<lparr>pixels = [(10, 11, 12), (1, 2, 3), (13, 14, 15), (4, 5, 6), (16, 17, 18), (7, 8, 9)],
           width = 2, height = 3\<rparr>)
   \<and> bind rotateRight (\<lambda>_. bind rotateRight (\<lambda>_. bind rotateRight (\<lambda>_. rotateRight)))
        \<lparr>pixels = [(1, 2, 3), (4, 5, 6), (7, 8, 9), (10, 11, 12), (13, 14, 15), (16, 17, 18)],
          width = 3, height = 2\<rparr>
      = (Inr (),
         \<lparr>pixels = [(1, 2, 3), (4, 5, 6), (7, 8, 9), (10, 11, 12), (13, 14, 15), (16, 17, 18)],
           width = 3, height = 2\<rparr>)"
proof -
  have t: "rotateRight
        \<lparr>pixels = [(1, 2, 3), (4, 5, 6), (7, 8, 9), (10, 11, 12), (13, 14, 15), (16, 17, 18)],
          width = 3, height = 2\<rparr>
      = (Inr (),
         \<lparr>pixels = [(10, 11, 12), (1, 2, 3), (13, 14, 15), (4, 5, 6), (16, 17, 18), (7, 8, 9)],
           width = 2, height = 3\<rparr>)"
    by code_simp
  show ?thesis
    using rotateRight_four_times [of
      "\<lparr>pixels = [(1, 2, 3), (4, 5, 6), (7, 8, 9), (10, 11, 12), (13, 14, 15), (16, 17, 18)],
        width = 3, height = 2\<rparr>"] t
    by (simp add: wf_image_def)
qed

section \<open>The round trip of a hidden text\<close>

lemma encode_pixel_hide:
  assumes "pos < length (pixels s)" "0 \<le> v" "v \<le> 255"
  shows "encode_pixel (int pos) v s = (Inr (), s\<lparr>pixels := (pixels s)[pos := hide v (pixels s ! pos)]\<rparr>)"
  using assms
  by (simp add: encode_pixel_def prog_defs getFlatPixel_def setFlatPixel_def hide_def Let_def
           split: prod.splits)

lemma decode_pixel_hidden:
  assumes "pos < length (pixels s)"
  shows "decode_pixel (int pos) s = (Inr (hidden (pixels s ! pos)), s)"
  using assms
  by (simp add: decode_pixel_def prog_defs getFlatPixel_def hidden_def split: prod.splits)

lemma three_digits:
  fixes v :: int
  shows "(v div 100) * 100 + ((v div 10) mod 10) * 10 + v mod 10 = v"
proof -
  have "v = (v div 10) * 10 + v mod 10" by simp
  moreover have "v div 10 = (v div 10 div 10) * 10 + (v div 10) mod 10" by simp
  moreover have "v div 10 div 10 = v div 100" by (simp add: div_mult2_eq [symmetric])
  ultimately show ?thesis by linarith
qed

lemma hidden_hide:
  assumes "0 \<le> v" "v \<le> 255"
  shows "hidden (hide v p) = v"
proof -
  obtain r g b where p: "p = (r, g, b)" by (cases p)
  have a0: "0 \<le> v div 100" using assms(1) by (simp add: pos_imp_zdiv_nonneg_iff)
  have "v div 100 \<le> 255 div 100" using assms(2) by (rule zdiv_mono1) simp
  then have a9: "v div 100 \<le> 9" by simp
  have "encode_channel r (v div 100) mod 10 = v div 100" using a0 a9 by (rule encode_channel_mod)
  moreover have "encode_channel g ((v div 10) mod 10) mod 10 = (v div 10) mod 10"
    by (rule encode_channel_mod) simp_all
  moreover have "encode_channel b (v mod 10) mod 10 = v mod 10"
    by (rule encode_channel_mod) simp_all
  ultimately show ?thesis
    by (simp only: p hide_def hidden_def prod.case three_digits)
qed

lemma fold_modify_length:
  "length (fold (\<lambda>x ps. ps[x := f x (ps ! x)]) xs ps) = length ps"
  by (induction xs arbitrary: ps) simp_all

lemma fold_modify_upt:
  assumes "n \<le> length ps"
  shows "fold (\<lambda>x ps. ps[x := f x (ps ! x)]) [0..<n] ps
         = map (\<lambda>x. f x (ps ! x)) [0..<n] @ drop n ps"
  using assms
proof (induction n)
  case 0
  then show ?case by simp
next
  case (Suc n)
  then have n: "n < length ps" by simp
  have "(map (\<lambda>x. f x (ps ! x)) [0..<n] @ drop n ps)[n := f n (ps ! n)]
        = map (\<lambda>x. f x (ps ! x)) [0..<n] @ (drop n ps)[0 := f n (ps ! n)]"
    by (simp add: list_update_append)
  also have "(drop n ps)[0 := f n (ps ! n)] = f n (ps ! n) # drop (Suc n) ps"
    using n by (simp add: Cons_nth_drop_Suc [symmetric])
  finally show ?case using Suc n by (simp add: nth_append)
qed

lemma fold_image_modify:
  "fold (\<lambda>x s. s\<lparr>pixels := (pixels s)[x := f x (pixels s ! x)]\<rparr>) xs s =
   s\<lparr>pixels := fold (\<lambda>x ps. ps[x := f x (ps ! x)]) xs (pixels s)\<rparr>"
  by (induction xs arbitrary: s) simp_all

lemma ASCII_encode_hide:
  fixes s :: image
  assumes "thelist \<noteq> []" "\<forall>v\<in>set thelist. 0 \<le> v \<and> v \<le> 255"
    "length thelist \<le> length (pixels s)"
  shows "ASCII_encode thelist s =
         (Inr (), s\<lparr>pixels := map (\<lambda>x. hide (thelist ! x) (pixels s ! x)) [0..<length thelist]
                                @ drop (length thelist) (pixels s)\<rparr>)"
proof -
  define I where "I = (\<lambda>t::image. length (pixels t) = length (pixels s))"
  define g where "g = (\<lambda>x (t::image). t\<lparr>pixels := (pixels t)[x := hide (thelist ! x) (pixels t ! x)]\<rparr>)"
  have first: "is_ASCII thelist = Some True"
    using assms(1,2) by (cases thelist) (simp_all add: is_ASCII_def)
  have "for_each [0..<length thelist] (\<lambda>x. let v = thelist ! x in encode_pixel (int x) v) s
        = (Inr (), fold g [0..<length thelist] s) \<and> I (fold g [0..<length thelist] s)"
  proof (rule for_each_fold [where I = I])
    show "I s" by (simp add: I_def)
  next
    fix x t assume x: "x \<in> set [0..<length thelist]" and t: "I t"
    have "x < length (pixels t)" using x t assms(3) by (simp add: I_def)
    moreover have "0 \<le> thelist ! x \<and> thelist ! x \<le> 255" using x assms(2) by simp
    ultimately show "(let v = thelist ! x in encode_pixel (int x) v) t = (Inr (), g x t) \<and> I (g x t)"
      using t by (simp add: encode_pixel_hide g_def I_def)
  qed
  moreover have "fold g [0..<length thelist] s
        = s\<lparr>pixels := fold (\<lambda>x ps. ps[x := hide (thelist ! x) (ps ! x)])
                           [0..<length thelist] (pixels s)\<rparr>"
    unfolding g_def by (rule fold_image_modify [where f = "\<lambda>x. hide (thelist ! x)"])
  moreover have "fold (\<lambda>x ps. ps[x := hide (thelist ! x) (ps ! x)]) [0..<length thelist] (pixels s)
        = map (\<lambda>x. hide (thelist ! x) (pixels s ! x)) [0..<length thelist]
          @ drop (length thelist) (pixels s)"
    by (rule fold_modify_upt [where f = "\<lambda>x. hide (thelist ! x)", OF assms(3)])
  ultimately show ?thesis
    using first by (simp add: ASCII_encode_def prog_defs)
qed

lemma pixels_to_ASCII_loop_hidden:
  assumes "\<forall>x\<in>set xs. x < length (pixels s)"
  shows "pixels_to_ASCII_loop xs acc s = (Inr (acc @ map (\<lambda>x. hidden (pixels s ! x)) xs), s)"
  using assms
  by (induction xs arbitrary: acc) (simp_all add: return_def bind_def decode_pixel_hidden)

lemma pixels_to_ASCII_hidden:
  "pixels_to_ASCII s s = (Inr (map hidden (pixels s)), s)"
proof -
  have "map (\<lambda>x. hidden (pixels s ! x)) [0..<length (pixels s)] = map hidden (pixels s)"
    by (rule nth_equalityI) simp_all
  then show ?thesis
    by (simp add: pixels_to_ASCII_def getLength_def pixels_to_ASCII_loop_hidden)
qed

lemma nat_digits_are_digits: "\<forall>c\<in>set (nat_digits n). is_digit c"
proof (induction n rule: nat_digits.induct)
  case (1 n)
  show ?case
  proof (cases "n < 10")
    case True
    then show ?thesis by (subst nat_digits.simps) (simp add: is_digit_def)
  next
    case False
    have "n mod 10 < 10" by simp
    then have "is_digit (48 + n mod 10)" unfolding is_digit_def by linarith
    then show ?thesis using False 1 by (subst nat_digits.simps) simp
  qed
qed

lemma nat_digits_not_Nil: "nat_digits n \<noteq> []"
  by (subst nat_digits.simps) simp

lemma nat_digits_length:
  "n < 10 ^ k \<Longrightarrow> 0 < k \<Longrightarrow> length (nat_digits n) \<le> k"
proof (induction n arbitrary: k rule: nat_digits.induct)
  case (1 n)
  show ?case
  proof (cases "n < 10")
    case True
    then show ?thesis using "1.prems"(2) by (subst nat_digits.simps) simp
  next
    case False
    obtain j where k: "k = Suc j" using "1.prems"(2) by (cases k) simp_all
    have "j \<noteq> 0" using False "1.prems"(1) k by (cases j) simp_all
    moreover have "n div 10 < 10 ^ j"
      using "1.prems"(1) k by (simp add: less_mult_imp_div_less mult.commute)
    ultimately have "length (nat_digits (n div 10)) \<le> j"
      using "1.IH" [OF False, of j] by simp
    then show ?thesis using False k by (subst nat_digits.simps) simp
  qed
qed

lemma digits_val_snoc:
  assumes "\<forall>c\<in>set ds. is_digit c" "is_digit d"
  shows "digits_val (ds @ [d]) acc = map_option (\<lambda>m. 10 * m + (int d - 48)) (digits_val ds acc)"
  using assms
proof (induction ds acc rule: digits_val.induct)
  case (1 acc)
  then show ?case by simp
next
  case (2 c acc)
  then show ?case by simp
next
  case (3 c e es acc)
  then show ?case by simp
qed

lemma unsigned_val_nat_digits: "unsigned_val (nat_digits n) = Some (int n)"
proof (induction n rule: nat_digits.induct)
  case (1 n)
  show ?case
  proof (cases "n < 10")
    case True
    then have "is_digit (48 + n)" by (simp add: is_digit_def)
    then show ?thesis using True by (subst nat_digits.simps) (simp add: unsigned_val_def)
  next
    case False
    obtain c cs where cs: "nat_digits (n div 10) = c # cs"
      using nat_digits_not_Nil [of "n div 10"] by (cases "nat_digits (n div 10)") auto
    have dig: "is_digit c" "\<forall>x\<in>set cs. is_digit x"
      using nat_digits_are_digits [of "n div 10"] cs by simp_all
    have "n mod 10 < 10" by simp
    then have last: "is_digit (48 + n mod 10)" unfolding is_digit_def by linarith
    have "digits_val cs (int c - 48) = Some (int (n div 10))"
      using "1.IH" [OF False] cs dig(1) by (simp add: unsigned_val_def)
    then have "digits_val (cs @ [48 + n mod 10]) (int c - 48)
               = Some (10 * int (n div 10) + (int (48 + n mod 10) - 48))"
      using digits_val_snoc [OF dig(2) last] by simp
    also have "10 * int (n div 10) + (int (48 + n mod 10) - 48) = int n"
      by (simp add: zdiv_int zmod_int)
    finally show ?thesis
      using False cs dig(1) by (subst nat_digits.simps) (simp add: unsigned_val_def)
  qed
qed

lemma digit_not_space: "is_digit c \<Longrightarrow> \<not> is_space c"
  by (auto simp: is_digit_def is_space_def)

lemma strip_digits:
  assumes "ds \<noteq> []" "\<forall>c\<in>set ds. is_digit c"
  shows "strip ds = ds"
proof -
  have "\<not> is_space (hd ds)" using assms by (simp add: digit_not_space)
  then have 1: "dropWhile is_space ds = ds" using assms(1) by (cases ds) simp_all
  have "\<not> is_space (hd (rev ds))" using assms by (simp add: digit_not_space hd_rev)
  then have "dropWhile is_space (rev ds) = rev ds" using assms(1) by (cases "rev ds") simp_all
  then show ?thesis by (simp add: strip_def 1)
qed

lemma py_int_nat_digits: "py_int (nat_digits n) = Some (int n)"
proof -
  obtain c cs where cs: "nat_digits n = c # cs"
    using nat_digits_not_Nil [of n] by (cases "nat_digits n") auto
  have "is_digit c" using nat_digits_are_digits [of n] cs by simp
  then have "c \<noteq> 43" "c \<noteq> 45" by (auto simp: is_digit_def)
  moreover have "strip (nat_digits n) = c # cs"
    using strip_digits [OF nat_digits_not_Nil nat_digits_are_digits, of n] cs by simp
  ultimately show ?thesis
    using unsigned_val_nat_digits [of n] by (simp add: py_int_def cs)
qed

lemma index_from_first:
  "v \<notin> set xs \<Longrightarrow> index_from n (xs @ v # ys) v = Inr (n + length xs)"
  by (induction xs arbitrary: n) auto

lemma translate_loop_chars:
  "\<forall>c\<in>set cs. c < 1114112 \<Longrightarrow> translate_loop (map int cs) acc = Inr (acc @ cs)"
  by (induction cs arbitrary: acc) (simp_all add: py_chr_def)

lemma translate_ASCII_chars:
  assumes "cs \<noteq> []" "hd cs \<le> 255" "\<forall>c\<in>set cs. c < 1114112"
  shows "translate_ASCII (map int cs) = Inr cs"
proof -
  have "translate_loop (map int cs) [] = Inr cs"
    using translate_loop_chars [OF assms(3), of "[]"] by simp
  moreover have "is_ASCII (map int cs) = Some True"
    using assms(1,2) by (cases cs) (simp_all add: is_ASCII_def)
  ultimately show ?thesis by (simp add: translate_ASCII_def)
qed

lemma frame_is_marker:
  assumes M: "M = 125 # 126 # map int (nat_digits N) @ 126 # 123 # rest"
    and N: "0 < N" "N \<le> 999999"
  shows "isMarker M = Inr True" and "getLengthCode M = Inr (PyInt (int N))"
proof -
  define D where "D = nat_digits N"
  have M': "M = 125 # 126 # map int D @ 126 # 123 # rest" using M by (simp add: D_def)
  have D_digits: "\<forall>c\<in>set D. is_digit c" unfolding D_def by (rule nat_digits_are_digits)
  have D_not_Nil: "D \<noteq> []" unfolding D_def by (rule nat_digits_not_Nil)
  have "N < 10 ^ 6" using N(2) by simp
  then have D_len: "length D \<le> 6" unfolding D_def by (rule nat_digits_length) simp
  have asc: "is_ASCII M = Some True" by (simp add: M' is_ASCII_def)
  have no_tilde: "126 \<notin> set (map int D)" using D_digits by (auto simp: is_digit_def)
  have idx: "py_index (drop 2 M) 126 = Inr (length D)"
    using index_from_first [OF no_tilde, of 0 "123 # rest"] by (simp add: M' py_index_def)
  have "M = (125 # 126 # map int D) @ 126 # 123 # rest" by (simp add: M')
  then have "M ! (length (125 # 126 # map int D) + 1) = 123"
    by (simp only: nth_append_length_plus) simp
  moreover have "length D + 2 + 1 < length M" by (simp add: M')
  ultimately have nth: "py_nth M (length D + 2 + 1) = Inr 123" by (simp add: py_nth_def)
  have between: "take (length D + 2 - 2) (drop 2 M) = map int D" by (simp add: M')
  have "hd D \<le> 255" using D_digits D_not_Nil by (cases D) (auto simp: is_digit_def)
  moreover have "\<forall>c\<in>set D. c < 1114112" using D_digits by (auto simp: is_digit_def)
  ultimately have tr: "translate_ASCII (map int D) = Inr D"
    using D_not_Nil by (intro translate_ASCII_chars)
  have val: "Code_to_Int D = PyInt (int N)"
    by (simp add: Code_to_Int_def D_def py_int_nat_digits)
  have take2: "take 2 M = [125, 126]" by (simp add: M')
  show "isMarker M = Inr True"
    using N(1) D_len nth between
    by (simp add: isMarker_def asc take2 idx tr val eq_False_def Let_def)
  have "take (length D) (drop 2 M) = map int D" by (simp add: M')
  then show "getLengthCode M = Inr (PyInt (int N))"
    by (simp add: getLengthCode_def asc idx tr val Let_def)
qed

lemma decode_frame:
  assumes M: "map hidden (pixels s)
              = 125 # 126 # map int (nat_digits (length text)) @ 126 # 123 # map int text @ junk"
    and tx: "text \<noteq> []" "\<forall>c\<in>set text. c \<le> 255" "length text \<le> 999999"
  shows "decode s = (Inr (Some text), s)"
proof -
  define M where "M = map hidden (pixels s)"
  define D where "D = nat_digits (length text)"
  have M': "M = 125 # 126 # map int D @ 126 # 123 # map int text @ junk"
    using M by (simp add: M_def D_def)
  have N: "0 < length text" using tx(1) by simp
  have marker: "isMarker M = Inr True" "getLengthCode M = Inr (PyInt (int (length text)))"
    using frame_is_marker [OF _ N tx(3), of M "map int text @ junk"] M' by (simp_all add: D_def)
  have str: "str_val (PyInt (int (length text))) = D"
    by (simp add: str_val_def py_str_def D_def)
  define P where "P = 125 # 126 # map int D @ [126, 123]"
  have MP: "M = P @ (map int text @ junk)" by (simp add: P_def M')
  have lP: "length P = 4 + length D" by (simp add: P_def)
  have "drop (length P) M = map int text @ junk" unfolding MP by simp
  then have "drop (4 + length D) M = map int text @ junk" by (simp only: lP)
  then have tk: "take (length text) (drop (4 + length D) M) = map int text" by simp
  have len: "length M = 4 + length D + length text + length junk" by (simp add: M')
  have b1: "slice_bound (length M) (4 + int (length D)) = 4 + length D"
    by (simp add: slice_bound_def len nat_add_distrib)
  have b2: "slice_bound (length M) (4 + int (length D) + int (length text))
            = 4 + length D + length text"
    by (simp add: slice_bound_def len nat_add_distrib)
  have slice: "py_slice M (4 + int (length D)) (4 + int (length D) + int_val (PyInt (int (length text))))
               = map int text"
    by (simp add: py_slice_def b1 b2 int_val_def tk Let_def)
  have "hd text \<le> 255" using tx(1,2) by (cases "text") simp_all
  moreover have "\<forall>c\<in>set text. c < 1114112" using tx(2) by auto
  ultimately have tr: "translate_ASCII (map int text) = Inr text"
    using tx(1) by (intro translate_ASCII_chars)
  show ?thesis
    using pixels_to_ASCII_hidden [of s]
    by (simp add: decode_def prog_defs M_def [symmetric] marker str slice tr Let_def)
qed

lemma frame_codes_in_range:
  assumes "\<forall>c\<in>set text. c \<le> 255"
  shows "\<forall>v\<in>set (text_to_ASCII ([125, 126] @ nat_digits N @ [126, 123]) @ text_to_ASCII text).
           0 \<le> v \<and> v \<le> 255"
  using assms nat_digits_are_digits [of N]
  by (auto simp: text_to_ASCII_def py_ord_def is_digit_def)

text \<open>
  Claim C1, amended. For every image and every text that is not empty, has at most
  999999 characters, all with a code of at most 255, and whose frame of
  \<open>4 + len(str(len(text))) + len(text)\<close> characters is not longer than the image
  has pixels: \<open>encode\<close> returns \<open>True\<close>, and \<open>decode\<close> on the image it leaves
  returns exactly the text.
\<close>

theorem encode_decode_round_trip:
  assumes "text \<noteq> []" "\<forall>c\<in>set text. c \<le> 255" "length text \<le> 999999"
    and "4 + length (py_str (int (length text))) + length text \<le> getLength img"
  shows "fst (encode text img) = Inr True
       \<and> decode (snd (encode text img)) = (Inr (Some text), snd (encode text img))"
proof -
  define D where "D = nat_digits (length text)"
  define codes where
    "codes = text_to_ASCII ([125, 126] @ D @ [126, 123]) @ text_to_ASCII text"
  define s' where "s' = img\<lparr>pixels := map (\<lambda>x. hide (codes ! x) (pixels img ! x)) [0..<length codes]
                                @ drop (length codes) (pixels img)\<rparr>"
  have str: "py_str (int (length text)) = D" by (simp add: py_str_def D_def)
  have len: "length codes = 4 + length D + length text"
    by (simp add: codes_def text_to_ASCII_def)
  have fits: "length codes \<le> length (pixels img)"
    using assms(4) by (simp add: len str getLength_def)
  have range: "\<forall>v\<in>set codes. 0 \<le> v \<and> v \<le> 255"
    unfolding codes_def D_def by (rule frame_codes_in_range [OF assms(2)])
  have "codes \<noteq> []" by (simp add: codes_def text_to_ASCII_def)
  then have enc: "ASCII_encode codes img = (Inr (), s')"
    unfolding s'_def using range fits by (rule ASCII_encode_hide)
  have "encode text img = bind (ASCII_encode codes) (\<lambda>_. return True) img"
    using assms(3,4)
    by (simp add: encode_def getCurrent_def bind_def Let_def str codes_def getLength_def)
  then have e: "encode text img = (Inr True, s')"
    using enc by (simp add: bind_def return_def)
  have "map hidden (map (\<lambda>x. hide (codes ! x) (pixels img ! x)) [0..<length codes]) = codes"
    using range by (intro nth_equalityI) (simp_all add: hidden_hide)
  then have "map hidden (pixels s')
        = 125 # 126 # map int D @ 126 # 123 # map int text
          @ map hidden (drop (length codes) (pixels img))"
    by (simp add: s'_def codes_def text_to_ASCII_def py_ord_def)
  then have "decode s' = (Inr (Some text), s')"
    unfolding D_def using assms(1-3) by (rule decode_frame)
  then show ?thesis by (simp add: e)
qed

theorem encode_decode_round_trip_witness:
  "[104, 105::nat] \<noteq> [] \<and> (104::nat) \<le> 255 \<and> (105::nat) \<le> 255 \<and> length [104, 105::nat] \<le> 999999
   \<and> 4 + length (py_str (int (length [104, 105::nat]))) + length [104, 105::nat]
       \<le> getLength \<lparr>pixels = [(255, 255, 255), (255, 255, 255), (255, 255, 255), (255, 255, 255),
                (255, 255, 255), (255, 255, 255), (255, 255, 255), (255, 255, 255)], width = 4, height = 2\<rparr>
   \<and> fst (encode [104, 105] \<lparr>pixels = [(255, 255, 255), (255, 255, 255), (255, 255, 255), (255, 255, 255),
                (255, 255, 255), (255, 255, 255), (255, 255, 255), (255, 255, 255)], width = 4, height = 2\<rparr>)
       = Inr True
   \<and> fst (decode (snd (encode [104, 105]
          \<lparr>pixels = [(255, 255, 255), (255, 255, 255), (255, 255, 255), (255, 255, 255),
                (255, 255, 255), (255, 255, 255), (255, 255, 255), (255, 255, 255)], width = 4, height = 2\<rparr>)))
       = Inr (Some [104, 105])"
  using encode_decode_round_trip [of "[104, 105]"
      "\<lparr>pixels = [(255, 255, 255), (255, 255, 255), (255, 255, 255), (255, 255, 255),
                (255, 255, 255), (255, 255, 255), (255, 255, 255), (255, 255, 255)], width = 4, height = 2\<rparr>"]
  by (simp add: getLength_def py_str_def nat_digits.simps)

text \<open>
  The two restrictions of the amended claim are needed. A character with a code
  above 255 fails the assertion of \<open>_encode_pixel\<close>, after the marker has been
  written. The empty text is encoded, but \<open>_isMarker\<close> rejects its marker: the
  length 0 that \<open>_Code_to_Int\<close> returns equals \<open>False\<close> in Python.
\<close>

lemma encode_frame:
  assumes "length text \<le> 999999"
    and "4 + length (py_str (int (length text))) + length text \<le> getLength img"
  shows "encode text img
         = bind (ASCII_encode (text_to_ASCII ([125, 126] @ py_str (int (length text)) @ [126, 123])
                               @ text_to_ASCII text))
             (\<lambda>_. return True) img"
  using assms by (simp add: encode_def getCurrent_def bind_def Let_def)

lemma encode_empty_text:
  "encode [] \<lparr>pixels = [(255, 255, 255), (255, 255, 255), (255, 255, 255), (255, 255, 255),
                (255, 255, 255), (255, 255, 255)], width = 3, height = 2\<rparr>
   = (Inr True,
      \<lparr>pixels = [(251, 252, 255), (251, 252, 246), (250, 254, 248), (251, 252, 246),
                 (251, 252, 253), (255, 255, 255)], width = 3, height = 2\<rparr>)"
proof -
  have "bind (ASCII_encode [125, 126, 48, 126, 123]) (\<lambda>_. return True)
          \<lparr>pixels = [(255, 255, 255), (255, 255, 255), (255, 255, 255), (255, 255, 255),
                (255, 255, 255), (255, 255, 255)], width = 3, height = 2\<rparr>
        = (Inr True,
      \<lparr>pixels = [(251, 252, 255), (251, 252, 246), (250, 254, 248), (251, 252, 246),
                 (251, 252, 253), (255, 255, 255)], width = 3, height = 2\<rparr>)"
    by code_simp
  then show ?thesis
    by (subst encode_frame)
       (simp_all add: getLength_def py_str_def nat_digits.simps text_to_ASCII_def py_ord_def)
qed

lemma decode_empty_text:
  "decode \<lparr>pixels = [(251, 252, 255), (251, 252, 246), (250, 254, 248), (251, 252, 246),
                 (251, 252, 253), (255, 255, 255)], width = 3, height = 2\<rparr>
   = (Inr None,
      \<lparr>pixels = [(251, 252, 255), (251, 252, 246), (250, 254, 248), (251, 252, 246),
                 (251, 252, 253), (255, 255, 255)], width = 3, height = 2\<rparr>)"
proof -
  have "isMarker [125, 126, 48, 126, 123, 555] = Inr False"
    by (simp add: isMarker_def is_ASCII_def py_index_def py_nth_def translate_ASCII_def
          py_chr_def Code_to_Int_def py_int_def strip_def is_space_def unsigned_val_def
          is_digit_def eq_False_def Let_def)
  then show ?thesis
    by (simp add: decode_def prog_defs pixels_to_ASCII_hidden hidden_def)
qed

text \<open>
  Claim C1 as stated fails: the one-character text with code 8364 fits in an image
  of six pixels, and \<open>encode\<close> raises \<open>AssertionError\<close> instead of returning \<open>True\<close>.
\<close>

theorem encode_decode_counterexample:
  "length [8364::nat] \<le> 999999
   \<and> 4 + length (py_str (int (length [8364::nat]))) + length [8364::nat]
       \<le> getLength \<lparr>pixels = [(255, 255, 255), (255, 255, 255), (255, 255, 255), (255, 255, 255),
                (255, 255, 255), (255, 255, 255)], width = 3, height = 2\<rparr>
   \<and> fst (encode [8364] \<lparr>pixels = [(255, 255, 255), (255, 255, 255), (255, 255, 255), (255, 255, 255),
                (255, 255, 255), (255, 255, 255)], width = 3, height = 2\<rparr>)
       = Inl AssertionError"
proof -
  have "fst (bind (ASCII_encode [125, 126, 49, 126, 123, 8364]) (\<lambda>_. return True)
          \<lparr>pixels = [(255, 255, 255), (255, 255, 255), (255, 255, 255), (255, 255, 255),
                (255, 255, 255), (255, 255, 255)], width = 3, height = 2\<rparr>)
        = Inl AssertionError"
    by code_simp
  then show ?thesis
    by (subst encode_frame)
       (simp_all add: getLength_def py_str_def nat_digits.simps text_to_ASCII_def py_ord_def)
qed

section \<open>Pixellation\<close>

lemma for_each_pure:
  assumes "\<And>x s. x \<in> set xs \<Longrightarrow> body x s = (Inr (), g x s)"
  shows "for_each xs body s = (Inr (), fold g xs s)"
  using for_each_fold [where I = "\<lambda>_. True" and body = body and g = g and xs = xs and s = s] assms
  by simp

lemma for_each_map: "for_each (map f xs) body = for_each xs (\<lambda>x. body (f x))"
  by (induction xs) simp_all

lemma try_add_pixel:
  assumes "wf_image s"
  shows "try_except_AssertionError (add_pixel s (int r) (int c)) acc
         = (Inr (), if r < height s \<and> c < width s then add_rgb (pix s r c) acc else acc)"
proof (cases "r < height s \<and> c < width s")
  case True
  then have "getPixel s (int r) (int c) = Inr (pix s r c)"
    using getPixel_nat [OF assms] by simp
  then show ?thesis
    using True
    by (cases acc; cases "pix s r c")
       (simp add: add_pixel_def try_except_AssertionError_def add_rgb_def)
next
  case False
  then have "getPixel s (int r) (int c) = Inl AssertionError"
    by (auto simp: getPixel_def in_grid_def)
  then show ?thesis
    using False by (cases acc) (auto simp: add_pixel_def try_except_AssertionError_def)
qed

lemma fold_if_filter:
  "fold (\<lambda>x acc. if P x then f x acc else acc) xs acc = fold f (filter P xs) acc"
  by (induction xs arbitrary: acc) simp_all

lemma filter_less_upt: "filter (\<lambda>i. a + i < (b::nat)) [0..<n] = [0..<min n (b - a)]"
proof (induction n)
  case 0
  then show ?case by simp
next
  case (Suc n)
  show ?case
  proof (cases "a + n < b")
    case True
    then have "min (Suc n) (b - a) = Suc (min n (b - a))" unfolding min_def by auto
    then show ?thesis using True Suc by simp
  next
    case False
    then have "min (Suc n) (b - a) = min n (b - a)" unfolding min_def by auto
    then show ?thesis using False Suc by simp
  qed
qed

lemma map_add_upt': "map (\<lambda>i. a + i) [0..<n] = [a..<a + n]"
  by (induction n) simp_all

lemma fold_skip: "fold (\<lambda>x acc. acc) xs acc = acc"
  by (induction xs) simp_all

lemma fold_add_rgb:
  "fold add_rgb ps (r, g, b, n)
   = (r + sum_list (map fst ps), g + sum_list (map (\<lambda>p. fst (snd p)) ps),
      b + sum_list (map (\<lambda>p. snd (snd p)) ps), n + int (length ps))"
  by (induction ps arbitrary: r g b n) (simp_all add: add_rgb_def)

lemma block_sums:
  assumes wf: "wf_image s" and x: "x < height s" and y: "y < width s"
  shows "for_each (py_range (int x) (int x + int st)) (\<lambda>k.
            try_except_AssertionError
              (for_each (py_range (int y) (int y + int st)) (\<lambda>j.
                 try_except_AssertionError (add_pixel s k j)))) (0, 0, 0, 0)
         = (Inr (), fold add_rgb (block_pixels s x y st) (0, 0, 0, 0))"
proof -
  define mr where "mr = min st (height s - x)"
  define mc where "mc = min st (width s - y)"
  define row where "row = (\<lambda>k acc. fold (\<lambda>j. add_rgb (pix s (x + k) (y + j))) [0..<mc] acc)"
  have inner: "try_except_AssertionError
              (for_each (py_range (int y) (int y + int st)) (\<lambda>j.
                 try_except_AssertionError (add_pixel s (int x + int k) j))) acc
        = (Inr (), if x + k < height s then row k acc else acc)" for k acc
  proof -
    have cell: "try_except_AssertionError (add_pixel s (int x + int k) (int y + int j)) a
          = (Inr (), if x + k < height s \<and> y + j < width s
                     then add_rgb (pix s (x + k) (y + j)) a else a)" for j a
      using try_add_pixel [OF wf, of "x + k" "y + j" a] by simp
    have "for_each [0..<st] (\<lambda>j. try_except_AssertionError
                 (add_pixel s (int x + int k) (int y + int j))) acc
          = (Inr (), fold (\<lambda>j a. if x + k < height s \<and> y + j < width s
                     then add_rgb (pix s (x + k) (y + j)) a else a) [0..<st] acc)"
      by (rule for_each_pure) (simp add: cell)
    moreover have "fold (\<lambda>j a. if x + k < height s \<and> y + j < width s
                     then add_rgb (pix s (x + k) (y + j)) a else a) [0..<st] acc
          = (if x + k < height s then row k acc else acc)"
    proof (cases "x + k < height s")
      case True
      then show ?thesis
        using fold_if_filter [of "\<lambda>j. y + j < width s" "\<lambda>j. add_rgb (pix s (x + k) (y + j))" "[0..<st]" acc]
        by (simp add: row_def mc_def filter_less_upt)
    next
      case False
      then have "(\<lambda>j a. if x + k < height s \<and> y + j < width s
                     then add_rgb (pix s (x + k) (y + j)) a else a) = (\<lambda>j a. a)"
        by (simp add: fun_eq_iff)
      then show ?thesis using False by (simp add: fold_skip)
    qed
    ultimately show ?thesis
      by (simp add: py_range_def for_each_map try_except_AssertionError_def)
  qed
  have "for_each [0..<st] (\<lambda>k.
            try_except_AssertionError
              (for_each (py_range (int y) (int y + int st)) (\<lambda>j.
                 try_except_AssertionError (add_pixel s (int x + int k) j)))) (0, 0, 0, 0)
        = (Inr (), fold (\<lambda>k acc. if x + k < height s then row k acc else acc) [0..<st] (0, 0, 0, 0))"
    by (rule for_each_pure) (simp add: inner)
  moreover have "fold (\<lambda>k acc. if x + k < height s then row k acc else acc) [0..<st] (0, 0, 0, 0)
        = fold row [0..<mr] (0, 0, 0, 0)"
    using fold_if_filter [of "\<lambda>k. x + k < height s" row "[0..<st]" "(0, 0, 0, 0)"]
    by (simp add: mr_def filter_less_upt)
  moreover have "fold row [0..<mr] acc
        = fold add_rgb (concat (map (\<lambda>k. map (\<lambda>j. pix s (x + k) (y + j)) [0..<mc]) [0..<mr])) acc"
    for acc
    by (induction mr arbitrary: acc) (simp_all add: row_def fold_map comp_def)
  moreover have "concat (map (\<lambda>k. map (\<lambda>j. pix s (x + k) (y + j)) [0..<mc]) [0..<mr])
        = block_pixels s x y st"
  proof -
    have r: "[x..<min (x + st) (height s)] = map (\<lambda>k. x + k) [0..<mr]"
      using x by (simp add: map_add_upt' mr_def min_def)
    have c: "[y..<min (y + st) (width s)] = map (\<lambda>j. y + j) [0..<mc]"
      using y by (simp add: map_add_upt' mc_def min_def)
    show ?thesis by (simp add: block_pixels_def r c comp_def)
  qed
  ultimately show ?thesis by (simp add: py_range_def for_each_map)
qed
lemma fold_cond_pixels:
  "fold (\<lambda>x (t::image). if P x then t\<lparr>pixels := (pixels t)[idx x := p]\<rparr> else t) xs s
   = s\<lparr>pixels := fold (\<lambda>x ps. if P x then ps[idx x := p] else ps) xs (pixels s)\<rparr>"
  by (induction xs arbitrary: s) simp_all

lemma fold_cond_writes_length:
  "length (fold (\<lambda>x ps. if P x then ps[idx x := p] else ps) xs ps) = length ps"
  by (induction xs arbitrary: ps) simp_all

lemma fold_cond_writes_nth:
  assumes "i < length ps"
  shows "fold (\<lambda>x ps. if P x then ps[idx x := p] else ps) xs ps ! i
         = (if \<exists>x\<in>set xs. P x \<and> idx x = i then p else ps ! i)"
  using assms
proof (induction xs arbitrary: ps rule: rev_induct)
  case Nil
  then show ?case by simp
next
  case (snoc x xs)
  define ps' where "ps' = fold (\<lambda>x ps. if P x then ps[idx x := p] else ps) xs ps"
  have len: "i < length ps'" using snoc.prems by (simp add: ps'_def fold_cond_writes_length)
  have IH: "ps' ! i = (if \<exists>x\<in>set xs. P x \<and> idx x = i then p else ps ! i)"
    unfolding ps'_def by (rule snoc.IH [OF snoc.prems])
  have "(if P x then ps'[idx x := p] else ps') ! i
        = (if P x \<and> idx x = i then p else ps' ! i)"
    using len by (simp add: nth_list_update)
  then show ?case using IH by (auto simp: ps'_def)
qed

lemma block_paint:
  assumes wf: "wf_image s"
  shows "\<exists>s'. for_each (py_range (int x) (int x + int st)) (\<lambda>k.
            try_except_AssertionError
              (for_each (py_range (int y) (int y + int st)) (\<lambda>j.
                 try_except_AssertionError
                   (writing (\<lambda>current. setPixel current k j p))))) s = (Inr (), s')
          \<and> wf_image s' \<and> width s' = width s \<and> height s' = height s
          \<and> (\<forall>r<height s. \<forall>c<width s.
                pix s' r c = (if x \<le> r \<and> r < x + st \<and> y \<le> c \<and> c < y + st then p else pix s r c))"
proof -
  define W where "W = width s"
  define H where "H = height s"
  define I where "I = (\<lambda>t. wf_image t \<and> width t = W \<and> height t = H)"
  define P where "P = (\<lambda>(k, j). x + k < H \<and> y + j < W)"
  define idx where "idx = (\<lambda>(k, j). (x + k) * W + (y + j))"
  define g where "g = (\<lambda>k j (t::image). if P (k, j) then t\<lparr>pixels := (pixels t)[idx (k, j) := p]\<rparr> else t)"
  have cell: "try_except_AssertionError
                (writing (\<lambda>current. setPixel current (int x + int k) (int y + int j) p)) t
              = (Inr (), g k j t) \<and> I (g k j t)" if "I t" for k j t
  proof (cases "P (k, j)")
    case True
    then have "setPixel t (int (x + k)) (int (y + j)) p
               = Inr (t\<lparr>pixels := (pixels t)[(x + k) * W + (y + j) := p]\<rparr>)"
      using setPixel_nat [of t "x + k" "y + j" p] that by (simp add: I_def P_def)
    then show ?thesis
      using True that
      by (simp add: g_def idx_def I_def wf_image_def writing_def try_except_AssertionError_def)
  next
    case False
    then have "setPixel t (int (x + k)) (int (y + j)) p = Inl AssertionError"
      using that by (auto simp: setPixel_def in_grid_def I_def P_def)
    then show ?thesis
      using False that
      by (simp add: g_def writing_def try_except_AssertionError_def)
  qed
  have row: "try_except_AssertionError
              (for_each (py_range (int y) (int y + int st)) (\<lambda>j.
                 try_except_AssertionError
                   (writing (\<lambda>current. setPixel current (int x + int k) j p)))) t
             = (Inr (), fold (g k) [0..<st] t) \<and> I (fold (g k) [0..<st] t)" if "I t" for k t
  proof -
    have "for_each [0..<st] (\<lambda>j. try_except_AssertionError
                   (writing (\<lambda>current. setPixel current (int x + int k) (int y + int j) p))) t
          = (Inr (), fold (g k) [0..<st] t) \<and> I (fold (g k) [0..<st] t)"
      by (rule for_each_fold [where I = I, OF that]) (simp add: cell)
    then show ?thesis
      by (simp add: py_range_def for_each_map try_except_AssertionError_def)
  qed
  define s' where "s' = fold (\<lambda>k. fold (g k) [0..<st]) [0..<st] s"
  have "I s" using wf by (simp add: I_def W_def H_def)
  then have "for_each [0..<st] (\<lambda>k.
            try_except_AssertionError
              (for_each (py_range (int y) (int y + int st)) (\<lambda>j.
                 try_except_AssertionError
                   (writing (\<lambda>current. setPixel current (int x + int k) j p))))) s = (Inr (), s')
        \<and> I s'"
    unfolding s'_def by (rule for_each_fold [where I = I]) (simp add: row)
  then have run: "for_each (py_range (int x) (int x + int st)) (\<lambda>k.
            try_except_AssertionError
              (for_each (py_range (int y) (int y + int st)) (\<lambda>j.
                 try_except_AssertionError
                   (writing (\<lambda>current. setPixel current k j p))))) s = (Inr (), s')" and "I s'"
    by (simp_all add: py_range_def for_each_map)
  have "(\<lambda>(k, j). g k j) = (\<lambda>x (t::image). if P x then t\<lparr>pixels := (pixels t)[idx x := p]\<rparr> else t)"
    by (auto simp: g_def fun_eq_iff)
  then have "s' = fold (\<lambda>x (t::image). if P x then t\<lparr>pixels := (pixels t)[idx x := p]\<rparr> else t)
                    (List.product [0..<st] [0..<st]) s"
    unfolding s'_def fold_product by simp
  then have px: "pixels s' = fold (\<lambda>x ps. if P x then ps[idx x := p] else ps)
                    (List.product [0..<st] [0..<st]) (pixels s)"
    by (simp add: fold_cond_pixels)
  have "pix s' r c = (if x \<le> r \<and> r < x + st \<and> y \<le> c \<and> c < y + st then p else pix s r c)"
    if "r < H" "c < W" for r c
  proof -
    have i: "r * W + c < length (pixels s)"
      using cell_index_less [of r H c W] that wf by (simp add: wf_image_def W_def H_def)
    have "(\<exists>z\<in>set (List.product [0..<st] [0..<st]). P z \<and> idx z = r * W + c)
          \<longleftrightarrow> (x \<le> r \<and> r < x + st \<and> y \<le> c \<and> c < y + st)"
    proof
      assume "\<exists>z\<in>set (List.product [0..<st] [0..<st]). P z \<and> idx z = r * W + c"
      then obtain k j where kj: "k < st" "j < st" "x + k < H" "y + j < W"
        "(x + k) * W + (y + j) = r * W + c"
        by (auto simp: P_def idx_def)
      have "x + k = r \<and> y + j = c" using cell_index_inj [OF kj(4) that(2) kj(5)] .
      then show "x \<le> r \<and> r < x + st \<and> y \<le> c \<and> c < y + st" using kj(1,2) by auto
    next
      assume a: "x \<le> r \<and> r < x + st \<and> y \<le> c \<and> c < y + st"
      then have "(r - x, c - y) \<in> set (List.product [0..<st] [0..<st])" by auto
      moreover have "P (r - x, c - y) \<and> idx (r - x, c - y) = r * W + c"
        using a that by (simp add: P_def idx_def)
      ultimately show "\<exists>z\<in>set (List.product [0..<st] [0..<st]). P z \<and> idx z = r * W + c"
        by blast
    qed
    then have "pixels s' ! (r * W + c)
               = (if x \<le> r \<and> r < x + st \<and> y \<le> c \<and> c < y + st then p else pixels s ! (r * W + c))"
      unfolding px using fold_cond_writes_nth [OF i, of P idx p "List.product [0..<st] [0..<st]"]
      by simp
    then show ?thesis using \<open>I s'\<close> by (simp add: pix_def I_def W_def)
  qed
  then show ?thesis using run \<open>I s'\<close> by (auto simp: I_def W_def H_def)
qed
lemma block_pixels_not_Nil:
  assumes "x < height s" "y < width s" "0 < st"
  shows "block_pixels s x y st \<noteq> []"
proof -
  have "[x..<min (x + st) (height s)] = x # [Suc x..<min (x + st) (height s)]"
    using assms by (intro upt_conv_Cons) simp
  moreover have "[y..<min (y + st) (width s)] = y # [Suc y..<min (y + st) (width s)]"
    using assms by (intro upt_conv_Cons) simp
  ultimately show ?thesis by (simp add: block_pixels_def)
qed

lemma avgRGB_block:
  assumes wf: "wf_image s" and x: "x < height s" and y: "y < width s" and st: "0 < st"
  shows "\<exists>s'. avgRGB (int x) (int y) (int st) s = (Inr (), s')
          \<and> wf_image s' \<and> width s' = width s \<and> height s' = height s
          \<and> (\<forall>r<height s. \<forall>c<width s.
                pix s' r c = (if x \<le> r \<and> r < x + st \<and> y \<le> c \<and> c < y + st
                              then block_average s x y st else pix s r c))"
proof -
  define ps where "ps = block_pixels s x y st"
  define p where "p = block_average s x y st"
  have n: "int (length ps) \<noteq> 0"
    using block_pixels_not_Nil [OF x y st] by (simp add: ps_def)
  have sums: "for_each (py_range (int x) (int x + int st)) (\<lambda>k.
            try_except_AssertionError
              (for_each (py_range (int y) (int y + int st)) (\<lambda>j.
                 try_except_AssertionError (add_pixel s k j)))) (0, 0, 0, 0)
         = (Inr (), (sum_list (map fst ps), sum_list (map (\<lambda>p. fst (snd p)) ps),
                     sum_list (map (\<lambda>p. snd (snd p)) ps), int (length ps)))"
    using block_sums [OF wf x y, of st] by (simp add: fold_add_rgb ps_def)
  have eq: "avgRGB (int x) (int y) (int st) s
        = for_each (py_range (int x) (int x + int st)) (\<lambda>k.
            try_except_AssertionError
              (for_each (py_range (int y) (int y + int st)) (\<lambda>j.
                 try_except_AssertionError
                   (writing (\<lambda>current. setPixel current k j p))))) s"
    using n
    by (simp add: avgRGB_def getCurrent_def bind_def lift_def sums py_truediv_def Let_def
          p_def block_average_def truncated_mean_def ps_def [symmetric])
  show ?thesis unfolding eq p_def by (rule block_paint [OF wf])
qed
lemma for_each_invariant:
  assumes "I [] s"
    and "\<And>pre x post t. xs = pre @ x # post \<Longrightarrow> I pre t
           \<Longrightarrow> \<exists>t'. body x t = (Inr (), t') \<and> I (pre @ [x]) t'"
  shows "\<exists>s'. for_each xs body s = (Inr (), s') \<and> I xs s'"
  using assms
proof (induction xs arbitrary: s I)
  case Nil
  then show ?case by (simp add: return_def)
next
  case (Cons x xs)
  obtain t' where t': "body x s = (Inr (), t')" "I [x] t'"
    using Cons.prems(2) [of "[]" x xs s] Cons.prems(1) by auto
  have "\<exists>s'. for_each xs body t' = (Inr (), s') \<and> I (x # xs) s'"
  proof (rule Cons.IH [where I = "\<lambda>pre. I (x # pre)"])
    show "I [x] t'" by (rule t'(2))
  next
    fix pre y post t
    assume "xs = pre @ y # post" "I (x # pre) t"
    then show "\<exists>t'. body y t = (Inr (), t') \<and> I (x # pre @ [y]) t'"
      using Cons.prems(2) [of "x # pre" y post t] by simp
  qed
  then show ?case by (simp add: bind_def t'(1))
qed

lemma block_index_less:
  fixes bx H st :: nat
  assumes "0 < st"
  shows "bx < (H + st - 1) div st \<longleftrightarrow> bx * st < H"
proof -
  have "bx < (H + st - 1) div st \<longleftrightarrow> Suc bx \<le> (H + st - 1) div st" by auto
  also have "\<dots> \<longleftrightarrow> Suc bx * st \<le> H + st - 1"
    using assms by (simp add: less_eq_div_iff_mult_less_eq)
  also have "\<dots> \<longleftrightarrow> bx * st < H" using assms by auto
  finally show ?thesis .
qed

lemma in_block_iff:
  fixes bx r st :: nat
  assumes "0 < st"
  shows "bx * st \<le> r \<and> r < bx * st + st \<longleftrightarrow> r div st = bx"
proof
  assume "bx * st \<le> r \<and> r < bx * st + st"
  then show "r div st = bx" by (intro div_nat_eqI) (simp_all add: mult.commute)
next
  assume "r div st = bx"
  then have "bx * st = r - r mod st" by (auto simp: minus_mod_eq_div_mult)
  moreover have "r mod st < st" using assms by simp
  moreover have "r mod st \<le> r" by simp
  ultimately show "bx * st \<le> r \<and> r < bx * st + st" by linarith
qed
lemma block_pixels_cong:
  assumes "width t = width s" "height t = height s"
    and "\<And>r c. x \<le> r \<Longrightarrow> r < x + st \<Longrightarrow> r < height s \<Longrightarrow> y \<le> c \<Longrightarrow> c < y + st
           \<Longrightarrow> c < width s \<Longrightarrow> pix t r c = pix s r c"
  shows "block_pixels t x y st = block_pixels s x y st"
proof -
  have cell: "pix t r c = pix s r c"
    if "r \<in> set [x..<min (x + st) (height s)]" "c \<in> set [y..<min (y + st) (width s)]" for r c
    using that by (intro assms(3)) simp_all
  have line: "map (\<lambda>c. pix t r c) [y..<min (y + st) (width s)]
        = map (\<lambda>c. pix s r c) [y..<min (y + st) (width s)]"
    if "r \<in> set [x..<min (x + st) (height s)]" for r
    by (rule map_cong [OF refl]) (rule cell [OF that])
  have "map (\<lambda>r. map (\<lambda>c. pix t r c) [y..<min (y + st) (width s)])
                 [x..<min (x + st) (height s)]
             = map (\<lambda>r. map (\<lambda>c. pix s r c) [y..<min (y + st) (width s)])
                 [x..<min (x + st) (height s)]"
    by (rule map_cong [OF refl]) (rule line)
  then show ?thesis unfolding block_pixels_def assms(1,2) by (rule arg_cong)
qed

lemma block_step:
  assumes inv: "blocks_done orig st P t" and st: "0 < st"
    and i: "i * st < height orig" and j: "j * st < width orig" and new: "(i, j) \<notin> P"
  shows "\<exists>t'. avgRGB (int (i * st)) (int (j * st)) (int st) t = (Inr (), t')
           \<and> blocks_done orig st (insert (i, j) P) t'"
proof -
  have t: "wf_image t" "width t = width orig" "height t = height orig"
    using inv by (simp_all add: blocks_done_def)
  have same: "pix t r c = pix orig r c"
    if "i * st \<le> r" "r < i * st + st" "r < height orig" "j * st \<le> c" "c < j * st + st"
      "c < width orig" for r c
  proof -
    have "r div st = i" using in_block_iff [OF st, of i r] that(1,2) by simp
    moreover have "c div st = j" using in_block_iff [OF st, of j c] that(4,5) by simp
    ultimately have "(r div st, c div st) \<notin> P" using new by simp
    moreover have "pix t r c = (if (r div st, c div st) \<in> P
                         then block_average orig (r div st * st) (c div st * st) st
                         else pix orig r c)"
      using inv that(3,6) by (simp add: blocks_done_def)
    ultimately show ?thesis by (simp only: if_False)
  qed
  have "block_pixels t (i * st) (j * st) st = block_pixels orig (i * st) (j * st) st"
    by (rule block_pixels_cong) (simp_all add: t same)
  then have avg: "block_average t (i * st) (j * st) st = block_average orig (i * st) (j * st) st"
    by (simp add: block_average_def)
  obtain t' where t': "avgRGB (int (i * st)) (int (j * st)) (int st) t = (Inr (), t')"
    "wf_image t'" "width t' = width t" "height t' = height t"
    "\<forall>r<height t. \<forall>c<width t.
       pix t' r c = (if i * st \<le> r \<and> r < i * st + st \<and> j * st \<le> c \<and> c < j * st + st
                     then block_average t (i * st) (j * st) st else pix t r c)"
    using avgRGB_block [OF t(1) _ _ st, of "i * st" "j * st"] i j t(2,3) by auto
  have "pix t' r c = (if (r div st, c div st) \<in> insert (i, j) P
                      then block_average orig (r div st * st) (c div st * st) st
                      else pix orig r c)"
    if "r < height orig" "c < width orig" for r c
  proof -
    have inside: "(i * st \<le> r \<and> r < i * st + st \<and> j * st \<le> c \<and> c < j * st + st)
                  = (r div st = i \<and> c div st = j)"
      using in_block_iff [OF st, of i r] in_block_iff [OF st, of j c] by blast
    have new': "pix t' r c = (if r div st = i \<and> c div st = j
                     then block_average orig (i * st) (j * st) st else pix t r c)"
      using t'(5) that t(2,3) by (simp only: inside avg)
    have old: "pix t r c = (if (r div st, c div st) \<in> P
                         then block_average orig (r div st * st) (c div st * st) st
                         else pix orig r c)"
      using inv that by (simp add: blocks_done_def)
    show ?thesis
    proof (cases "r div st = i \<and> c div st = j")
      case True
      then show ?thesis using new' by simp
    next
      case False
      then have "pix t' r c = pix t r c" using new' by (simp only: if_False)
      moreover have "((r div st, c div st) \<in> insert (i, j) P) = ((r div st, c div st) \<in> P)"
        using False by auto
      ultimately show ?thesis using old by (simp only:)
    qed
  qed
  then have "blocks_done orig st (insert (i, j) P) t'"
    using t'(2-4) t(2,3) by (simp add: blocks_done_def)
  then show ?thesis using t'(1) by blast
qed

lemma pixellate_blocks:
  assumes wf: "wf_image img" and st: "0 < st"
  shows "\<exists>img'. pixellate (int st) img = (Inr (), img')
           \<and> blocks_done img st ({0..<(height img + st - 1) div st}
                                  \<times> {0..<(width img + st - 1) div st}) img'"
proof -
  define nr where "nr = (height img + st - 1) div st"
  define nc where "nc = (width img + st - 1) div st"
  have rows: "py_range_step 0 (int (height img)) (int st) = map (\<lambda>i. int (i * st)) [0..<nr]"
  proof -
    have e: "int (height img) + int st - 1 = int (height img + st - 1)" using st by simp
    have "(int (height img) - 0 + int st - 1) div int st = int ((height img + st - 1) div st)"
      by (simp only: diff_zero e zdiv_int)
    then have "nat ((int (height img) - 0 + int st - 1) div int st) = nr"
      by (simp only: nat_int nr_def)
    then show ?thesis unfolding py_range_step_def by (simp only: map_eq_conv) simp
  qed
  have cols: "py_range_step 0 (int (width img)) (int st) = map (\<lambda>i. int (i * st)) [0..<nc]"
  proof -
    have e: "int (width img) + int st - 1 = int (width img + st - 1)" using st by simp
    have "(int (width img) - 0 + int st - 1) div int st = int ((width img + st - 1) div st)"
      by (simp only: diff_zero e zdiv_int)
    then have "nat ((int (width img) - 0 + int st - 1) div int st) = nc"
      by (simp only: nat_int nc_def)
    then show ?thesis unfolding py_range_step_def by (simp only: map_eq_conv) simp
  qed
  have eq: "pixellate (int st) img
        = for_each [0..<nr] (\<lambda>i. for_each [0..<nc] (\<lambda>j.
            avgRGB (int (i * st)) (int (j * st)) (int st))) img"
    using st
    by (simp add: pixellate_def assert_def return_def bind_def getCurrent_def getWidth_def
          getHeight_def Let_def rows cols for_each_map)
  have row: "\<exists>t'. for_each [0..<nc] (\<lambda>j. avgRGB (int (i * st)) (int (j * st)) (int st)) t
                 = (Inr (), t')
               \<and> blocks_done img st (set (pre @ [i]) \<times> {0..<nc}) t'"
    if "[0..<nr] = pre @ i # post" "blocks_done img st (set pre \<times> {0..<nc}) t" for pre i post t
  proof -
    have "distinct (pre @ i # post)" using that(1) [symmetric] by (simp del: distinct_append)
    then have fresh: "i \<notin> set pre" by simp
    have "i \<in> set [0..<nr]" using that(1) by simp
    then have i: "i * st < height img" using block_index_less [OF st] by (simp add: nr_def)
    have "\<exists>t'. for_each [0..<nc] (\<lambda>j. avgRGB (int (i * st)) (int (j * st)) (int st)) t
                 = (Inr (), t')
               \<and> blocks_done img st (set pre \<times> {0..<nc} \<union> {i} \<times> set [0..<nc]) t'"
    proof (rule for_each_invariant
        [where I = "\<lambda>done. blocks_done img st (set pre \<times> {0..<nc} \<union> {i} \<times> set done)"])
      show "blocks_done img st (set pre \<times> {0..<nc} \<union> {i} \<times> set []) t"
        using that(2) by simp
    next
      fix pre' j post' u
      assume split: "[0..<nc] = pre' @ j # post'"
        and u: "blocks_done img st (set pre \<times> {0..<nc} \<union> {i} \<times> set pre') u"
      have "distinct (pre' @ j # post')" using split [symmetric] by (simp del: distinct_append)
      then have "j \<notin> set pre'" by simp
      then have new: "(i, j) \<notin> set pre \<times> {0..<nc} \<union> {i} \<times> set pre'" using fresh by auto
      have "j \<in> set [0..<nc]" using split by simp
      then have j: "j * st < width img" using block_index_less [OF st] by (simp add: nc_def)
      have "insert (i, j) (set pre \<times> {0..<nc} \<union> {i} \<times> set pre')
            = set pre \<times> {0..<nc} \<union> {i} \<times> set (pre' @ [j])"
        by auto
      then show "\<exists>t'. avgRGB (int (i * st)) (int (j * st)) (int st) u = (Inr (), t')
                   \<and> blocks_done img st (set pre \<times> {0..<nc} \<union> {i} \<times> set (pre' @ [j])) t'"
        using block_step [OF u st i j new] by simp
    qed
    moreover have "set pre \<times> {0..<nc} \<union> {i} \<times> set [0..<nc] = set (pre @ [i]) \<times> {0..<nc}"
      by auto
    ultimately show ?thesis by simp
  qed
  have "blocks_done img st (set [] \<times> {0..<nc}) img"
    using wf by (simp add: blocks_done_def)
  then have "\<exists>img'. for_each [0..<nr] (\<lambda>i. for_each [0..<nc] (\<lambda>j.
            avgRGB (int (i * st)) (int (j * st)) (int st))) img = (Inr (), img')
           \<and> blocks_done img st (set [0..<nr] \<times> {0..<nc}) img'"
    by (rule for_each_invariant [where I = "\<lambda>done. blocks_done img st (set done \<times> {0..<nc})"])
       (rule row)
  then show ?thesis by (simp add: eq nr_def nc_def)
qed

text \<open>
  Claim C4. For every well-formed grid and every step above 0, \<open>pixellate\<close>
  succeeds and keeps the dimensions, and the pixel at \<open>(row, col)\<close> becomes the
  average of its block in the grid as it was before the call. The block has its corner
  at the multiples of the step below \<open>row\<close> and \<open>col\<close>, it is clipped at the right
  and bottom edges, and the average is the truncated mean of each channel over the
  pixels of the block: no block reads what another block has written.
\<close>

theorem pixellate_block_average:
  assumes "wf_image img" "0 < step"
  shows "fst (pixellate (int step) img) = Inr ()
       \<and> width (snd (pixellate (int step) img)) = width img
       \<and> height (snd (pixellate (int step) img)) = height img
       \<and> (\<forall>row<height img. \<forall>col<width img.
             getPixel (snd (pixellate (int step) img)) (int row) (int col)
             = Inr (block_average img (row div step * step) (col div step * step) step))"
proof -
  obtain img' where run: "pixellate (int step) img = (Inr (), img')"
    and inv: "blocks_done img step ({0..<(height img + step - 1) div step}
                                    \<times> {0..<(width img + step - 1) div step}) img'"
    using pixellate_blocks [OF assms] by blast
  have img': "wf_image img'" "width img' = width img" "height img' = height img"
    using inv by (simp_all add: blocks_done_def)
  have "getPixel img' (int row) (int col)
        = Inr (block_average img (row div step * step) (col div step * step) step)"
    if "row < height img" "col < width img" for row col
  proof -
    have "row div step * step \<le> row" "col div step * step \<le> col" by simp_all
    then have "row div step * step < height img" "col div step * step < width img"
      using that by linarith+
    then have "row div step < (height img + step - 1) div step"
      "col div step < (width img + step - 1) div step"
      using block_index_less [OF assms(2)] by simp_all
    then have "pix img' row col
               = block_average img (row div step * step) (col div step * step) step"
      using inv that by (simp add: blocks_done_def)
    then show ?thesis using getPixel_nat [OF img'(1), of row col] that img'(2,3) by simp
  qed
  then show ?thesis using run img'(2,3) by simp
qed

theorem pixellate_block_average_witness:
  "wf_image \<lparr>pixels = [(1, 10, 100), (2, 20, 200), (4, 30, 50), (5, 5, 5), (7, 0, 1), (0, 0, 9)],
             width = 3, height = 2\<rparr>
   \<and> (0::nat) < 2
   \<and> pixellate 2
        \<lparr>pixels = [(1, 10, 100), (2, 20, 200), (4, 30, 50), (5, 5, 5), (7, 0, 1), (0, 0, 9)],
          width = 3, height = 2\<rparr>
      = (Inr (),
         \<lparr>pixels = [(3, 8, 76), (3, 8, 76), (2, 15, 29), (3, 8, 76), (3, 8, 76), (2, 15, 29)],
           width = 3, height = 2\<rparr>)
   \<and> getPixel (snd (pixellate 2
        \<lparr>pixels = [(1, 10, 100), (2, 20, 200), (4, 30, 50), (5, 5, 5), (7, 0, 1), (0, 0, 9)],
          width = 3, height = 2\<rparr>)) 1 2
      = Inr (block_average
        \<lparr>pixels = [(1, 10, 100), (2, 20, 200), (4, 30, 50), (5, 5, 5), (7, 0, 1), (0, 0, 9)],
          width = 3, height = 2\<rparr> 0 2 2)"
proof -
  have run: "pixellate 2
        \<lparr>pixels = [(1, 10, 100), (2, 20, 200), (4, 30, 50), (5, 5, 5), (7, 0, 1), (0, 0, 9)],
          width = 3, height = 2\<rparr>
      = (Inr (),
         \<lparr>pixels = [(3, 8, 76), (3, 8, 76), (2, 15, 29), (3, 8, 76), (3, 8, 76), (2, 15, 29)],
           width = 3, height = 2\<rparr>)"
    by code_simp
  have wf: "wf_image \<lparr>pixels = [(1, 10, 100), (2, 20, 200), (4, 30, 50), (5, 5, 5), (7, 0, 1), (0, 0, 9)],
             width = 3, height = 2\<rparr>"
    by (simp add: wf_image_def)
  have every: "\<forall>row<2. \<forall>col<3. getPixel (snd (pixellate (int 2)
        \<lparr>pixels = [(1, 10, 100), (2, 20, 200), (4, 30, 50), (5, 5, 5), (7, 0, 1), (0, 0, 9)],
          width = 3, height = 2\<rparr>)) (int row) (int col)
      = Inr (block_average
        \<lparr>pixels = [(1, 10, 100), (2, 20, 200), (4, 30, 50), (5, 5, 5), (7, 0, 1), (0, 0, 9)],
          width = 3, height = 2\<rparr> (row div 2 * 2) (col div 2 * 2) 2)"
    using pixellate_block_average [OF wf, of 2] by simp
  have "(1::nat) < 2" "(2::nat) < 3" by simp_all
  from every [rule_format, OF this]
  have "getPixel (snd (pixellate 2
        \<lparr>pixels = [(1, 10, 100), (2, 20, 200), (4, 30, 50), (5, 5, 5), (7, 0, 1), (0, 0, 9)],
          width = 3, height = 2\<rparr>)) 1 2
      = Inr (block_average
        \<lparr>pixels = [(1, 10, 100), (2, 20, 200), (4, 30, 50), (5, 5, 5), (7, 0, 1), (0, 0, 9)],
          width = 3, height = 2\<rparr> 0 2 2)"
    by simp
  then show ?thesis using run wf by simp
qed

section \<open>The bars of the jail\<close>

lemma py_trunc_of_int: "py_trunc (rat_of_int k) = k"
  by (simp add: py_trunc_def)

text \<open>
  Claim C8. On an image that is 120 pixels wide, \<open>n = (120-8)//50 = 2\<close> and
  \<open>dist = 116/4 = 29\<close>, and after the two horizontal bars \<open>jail\<close> draws vertical
  bars that start at the columns 0, 29, 58, 87 and 116. These are five bars, three of
  them between the bars at the left and right edges, where the docstring of \<open>jail\<close>
  asks for \<open>n\<close> bars inside and \<open>n+2\<close> vertical bars in all.
\<close>

theorem jail_at_width_120:
  "jail (img\<lparr>width := 120\<rparr>)
   = bind (drawHBar 0 (255, 0, 0)) (\<lambda>_.
     bind (drawHBar (int (height img) - 3) (255, 0, 0)) (\<lambda>_.
     for_each [0, 29, 58, 87, 116] (\<lambda>col. drawVBar col (255, 0, 0))))
       (img\<lparr>width := 120\<rparr>)"
proof -
  have dist: "py_truediv (120 - 4) ((120 - 8) div 50 + 2) = Inr 29"
    by (simp add: py_truediv_def)
  have cols: "map (\<lambda>x. py_trunc (of_nat x * 29)) [0..<nat ((120 - 8) div 50 + 3)]
              = [0, 29, 58, 87, 116]"
  proof -
    have "[0..<5::nat] = [0, 1, 2, 3, 4]" by code_simp
    then show ?thesis by (simp add: py_trunc_def)
  qed
  have "for_each [0..<nat ((120 - 8) div 50 + 3)] (\<lambda>x. drawVBar (py_trunc (of_nat x * 29)) (255, 0, 0))
        = for_each (map (\<lambda>x. py_trunc (of_nat x * 29)) [0..<nat ((120 - 8) div 50 + 3)])
            (\<lambda>col. drawVBar col (255, 0, 0))"
    by (simp only: for_each_map)
  then have loop: "for_each [0..<nat ((120 - 8) div 50 + 3)]
                     (\<lambda>x. drawVBar (py_trunc (of_nat x * 29)) (255, 0, 0))
        = for_each [0, 29, 58, 87, 116] (\<lambda>col. drawVBar col (255, 0, 0))"
    by (simp only: cols)
  define s where "s = img\<lparr>width := 120\<rparr>"
  have w: "int (getWidth s) = 120" and h: "int (getHeight s) = int (height img)"
    by (simp_all add: getWidth_def getHeight_def s_def)
  have "jail s
   = bind (drawHBar 0 (255, 0, 0)) (\<lambda>_.
     bind (drawHBar (int (height img) - 3) (255, 0, 0)) (\<lambda>_.
     for_each [0, 29, 58, 87, 116] (\<lambda>col. drawVBar col (255, 0, 0)))) s"
    unfolding jail_def Let_def
    by (simp only: bind_def getCurrent_def lift_def prod.case sum.case w h dist loop)
  then show ?thesis by (simp only: s_def)
qed

end
